theory Spec2Isabelle
  imports Main "HOL-Library.Multiset"
begin

section \<open>The Go library functions the server calls\<close>

text \<open>
  Strings and byte slices are both \<^typ>\<open>string\<close> (a list of bytes). The functions below
  are the standard library's, written for the arguments \<^verbatim>\<open>server.go\<close> passes to them.
\<close>

text \<open>\<^verbatim>\<open>strings.HasPrefix(s, prefix)\<close>:
  \<^verbatim>\<open>len(s) >= len(prefix) && s[:len(prefix)] == prefix\<close>.\<close>

definition strings_HasPrefix :: "string \<Rightarrow> string \<Rightarrow> bool" where
  "strings_HasPrefix s pre = (length pre \<le> length s \<and> take (length pre) s = pre)"

text \<open>\<^verbatim>\<open>bytes.Index(s, sep)\<close> and \<^verbatim>\<open>strings.Index\<close>: the index of the first
  instance of \<open>sep\<close> in \<open>s\<close>; Go's \<open>-1\<close> is \<open>None\<close>.\<close>

fun bytes_Index :: "string \<Rightarrow> string \<Rightarrow> nat option" where
  "bytes_Index [] sep = (if sep = [] then Some 0 else None)"
| "bytes_Index (c # cs) sep =
     (if strings_HasPrefix (c # cs) sep then Some 0 else map_option Suc (bytes_Index cs sep))"

text \<open>\<^verbatim>\<open>bytes.Replace(s, old, new, 1)\<close>: a copy of \<open>s\<close> with the first instance of
  \<open>old\<close> replaced by \<open>new\<close>; a copy of \<open>s\<close> when \<open>old\<close> does not occur. Every call of the
  server passes the count 1.\<close>

definition bytes_Replace1 :: "string \<Rightarrow> string \<Rightarrow> string \<Rightarrow> string" where
  "bytes_Replace1 s old new =
     (case bytes_Index s old of
        None \<Rightarrow> s
      | Some j \<Rightarrow> take j s @ new @ drop (j + length old) s)"

text \<open>\<^verbatim>\<open>strings.Trim(s, cutset)\<close> for a cutset of ASCII bytes: all leading and trailing
  bytes of the cutset removed (Go trims the right end first, then the left).\<close>

definition trimRight :: "string \<Rightarrow> string \<Rightarrow> string" where
  "trimRight s cutset = rev (dropWhile (\<lambda>c. c \<in> set cutset) (rev s))"

definition trimLeft :: "string \<Rightarrow> string \<Rightarrow> string" where
  "trimLeft s cutset = dropWhile (\<lambda>c. c \<in> set cutset) s"

definition strings_Trim :: "string \<Rightarrow> string \<Rightarrow> string" where
  "strings_Trim s cutset = trimLeft (trimRight s cutset) cutset"

text \<open>\<^verbatim>\<open>strings.Split(s, sep)\<close>: the substrings between the instances of \<open>sep\<close>, empty
  ones included; \<open>[s]\<close> when \<open>sep\<close> does not occur. (With an empty separator Go splits
  after each UTF-8 sequence; the server's separator is \<open>''/''\<close>, and the equation below
  splits after each byte there.)\<close>

function strings_Split :: "string \<Rightarrow> string \<Rightarrow> string list" where
  "strings_Split s sep =
     (if sep = [] then map (\<lambda>c. [c]) s
      else (case bytes_Index s sep of
              None \<Rightarrow> [s]
            | Some i \<Rightarrow> take i s # strings_Split (drop (i + length sep) s) sep))"
  by pat_completeness auto
termination
proof (relation "measure (\<lambda>(s, sep). length s)")
  show "wf (measure (\<lambda>(s, sep). length s))" by simp
next
  fix s sep :: string and i :: nat
  assume sep: "sep \<noteq> []" and idx: "bytes_Index s sep = Some i"
  from sep idx have "s \<noteq> []" by (cases s) auto
  with sep have "length (drop (i + length sep) s) < length s" by simp
  then show "((drop (i + length sep) s, sep), (s, sep)) \<in> measure (\<lambda>(s, sep). length s)"
    by simp
qed

declare strings_Split.simps [simp del]

text \<open>\<^verbatim>\<open>strings.Join(elems, sep)\<close>.\<close>

fun strings_Join :: "string list \<Rightarrow> string \<Rightarrow> string" where
  "strings_Join [] sep = []"
| "strings_Join [e] sep = e"
| "strings_Join (e # es) sep = e @ sep @ strings_Join es sep"

text \<open>\<^verbatim>\<open>fmt.Sprintf("%v", b)\<close> for a boolean.\<close>

definition fmt_bool :: "bool \<Rightarrow> string" where
  "fmt_bool b = (if b then ''true'' else ''false'')"

section \<open>What the server consumes\<close>

text \<open>
  The runtime configuration (\<^verbatim>\<open>config.RouteUrlStrategy()\<close>, \<^verbatim>\<open>config.WebRenderer()\<close>,
  \<^verbatim>\<open>config.UseColorEmoji()\<close>), the page registry (\<^verbatim>\<open>store.GetPageByName\<close>, \<open>None\<close> for
  Go's \<open>nil\<close>) and the asset store are parameters of the handler. An asset is the bytes
  \<^verbatim>\<open>io.ReadAll\<close> gets from the opened file (the handler drops the read error and keeps
  the bytes); \<open>None\<close> is a failed \<^verbatim>\<open>Open\<close>, whose file is \<open>nil\<close>.
\<close>

record config =
  RouteUrlStrategy :: string
  WebRenderer :: string
  UseColorEmoji :: bool

record 'p server_env =
  GetPageByName :: "string \<Rightarrow> 'p option"
  assetsFS_Open :: "string \<Rightarrow> string option"
  Config :: config

definition apiRoutePrefix :: string where
  "apiRoutePrefix = ''/api''"

definition siteDefaultDocument :: string where
  "siteDefaultDocument = ''index.html''"

section \<open>The no-route handler\<close>

subsection \<open>Page name resolution (lines 102 to 122)\<close>

definition baseHref :: "(string \<Rightarrow> 'p option) \<Rightarrow> string \<Rightarrow> string" where
  "baseHref getPageByName path =
     (let b0 = strings_Trim path ''/'';
          b1 = (if b0 \<noteq> [] then
                  (let hrefParts = strings_Split b0 ''/'' in
                   if length hrefParts > 1 then
                     (let b = strings_Join (take 2 hrefParts) ''/'' in
                      if getPageByName b = None then [] else b)
                   else [])
                else b0)
      in if b1 \<noteq> [] then ''/'' @ b1 @ ''/'' else ''/'')"

subsection \<open>The shell rewrite (lines 127 to 147)\<close>

definition baseHrefMarker :: string where
  "baseHrefMarker = ''<base href=\"/\">''"

definition routeUrlStrategyMarker :: string where
  "routeUrlStrategyMarker = ''%FLET_ROUTE_URL_STRATEGY%''"

definition webRendererMarker :: string where
  "webRendererMarker = ''<!-- flutterWebRenderer -->''"

definition colorEmojiMarker :: string where
  "colorEmojiMarker = ''<!-- useColorEmoji -->''"

definition baseHrefTag :: "string \<Rightarrow> string" where
  "baseHrefTag href = ''<base href=\"'' @ href @ ''\">''"

definition webRendererScript :: "string \<Rightarrow> string" where
  "webRendererScript name = ''<script>var flutterWebRenderer=\"'' @ name @ ''\";</script>''"

definition colorEmojiScript :: "bool \<Rightarrow> string" where
  "colorEmojiScript b = ''<script>var useColorEmoji='' @ fmt_bool b @ '';</script>''"

definition replaceBaseHref :: "string \<Rightarrow> string \<Rightarrow> string" where
  "replaceBaseHref href indexData = bytes_Replace1 indexData baseHrefMarker (baseHrefTag href)"

definition replaceRouteUrlStrategy :: "config \<Rightarrow> string \<Rightarrow> string" where
  "replaceRouteUrlStrategy cfg indexData =
     bytes_Replace1 indexData routeUrlStrategyMarker (RouteUrlStrategy cfg)"

definition replaceWebRenderer :: "config \<Rightarrow> string \<Rightarrow> string" where
  "replaceWebRenderer cfg indexData =
     (if WebRenderer cfg \<noteq> [] then
        bytes_Replace1 indexData webRendererMarker (webRendererScript (WebRenderer cfg))
      else indexData)"

definition replaceColorEmoji :: "config \<Rightarrow> string \<Rightarrow> string" where
  "replaceColorEmoji cfg indexData =
     bytes_Replace1 indexData colorEmojiMarker (colorEmojiScript (UseColorEmoji cfg))"

text \<open>The four statements in the order the handler runs them.\<close>

definition rewrite :: "config \<Rightarrow> string \<Rightarrow> string \<Rightarrow> string" where
  "rewrite cfg href indexData =
     replaceColorEmoji cfg
       (replaceWebRenderer cfg
         (replaceRouteUrlStrategy cfg
           (replaceBaseHref href indexData)))"

subsection \<open>Requests and responses\<close>

text \<open>
  The fields of \<^verbatim>\<open>gin.Context\<close> the handlers read: \<^verbatim>\<open>c.Request.RequestURI\<close> (the
  request target as the client sent it), \<^verbatim>\<open>c.Request.URL.Path\<close> (its path, percent-decoded
  by \<^verbatim>\<open>net/url\<close>), \<^verbatim>\<open>c.Request.UserAgent()\<close> and \<^verbatim>\<open>c.ClientIP()\<close>.
\<close>

record request =
  RequestURI :: string
  URL_Path :: string
  UserAgent :: string
  ClientIP :: string

text \<open>
  How \<^verbatim>\<open>net/http\<close> fills the first two fields for an origin-form target (one that starts
  with a slash): the path is the target up to the first question mark, with every
  \<open>%XX\<close> decoded (\<^verbatim>\<open>url.ParseRequestURI\<close>, \<^verbatim>\<open>unescape\<close> in path mode); a malformed escape
  refuses the request before any handler runs.
\<close>

definition ishex :: "char \<Rightarrow> bool" where
  "ishex c = (let n = (of_char c :: nat) in
     (48 \<le> n \<and> n \<le> 57) \<or> (97 \<le> n \<and> n \<le> 102) \<or> (65 \<le> n \<and> n \<le> 70))"

definition unhex :: "char \<Rightarrow> nat" where
  "unhex c = (let n = (of_char c :: nat) in
     if 48 \<le> n \<and> n \<le> 57 then n - 48
     else if 97 \<le> n \<and> n \<le> 102 then n - 97 + 10
     else if 65 \<le> n \<and> n \<le> 70 then n - 65 + 10
     else 0)"

fun unescape :: "string \<Rightarrow> string option" where
  "unescape [] = Some []"
| "unescape (c # cs) =
     (if c = CHR ''%'' then
        (case cs of
           a # b # rest \<Rightarrow>
             if ishex a \<and> ishex b
             then map_option ((#) (char_of (16 * unhex a + unhex b))) (unescape rest)
             else None
         | _ \<Rightarrow> None)
      else map_option ((#) c) (unescape cs))"

definition http_ReadRequest :: "string \<Rightarrow> string \<Rightarrow> string \<Rightarrow> request option" where
  "http_ReadRequest target agent ip =
     (if \<not> strings_HasPrefix target ''/'' then None
      else (case unescape (takeWhile (\<lambda>c. c \<noteq> CHR ''?'') target) of
              None \<Rightarrow> None
            | Some p \<Rightarrow>
                Some \<lparr>RequestURI = target, URL_Path = p, UserAgent = agent, ClientIP = ip\<rparr>))"

text \<open>
  What a handler writes: \<^verbatim>\<open>c.JSON(code, gin.H{...})\<close>, \<^verbatim>\<open>c.Data(code, contentType, data)\<close>,
  or the bare status of \<^verbatim>\<open>c.AbortWithStatus\<close>.
\<close>

datatype response =
    JSON nat "(string \<times> string) list"
  | Data nat string string
  | AbortWithStatus nat

definition StatusOK :: nat where "StatusOK = 200"
definition StatusNotFound :: nat where "StatusNotFound = 404"
definition StatusInternalServerError :: nat where "StatusInternalServerError = 500"

text \<open>The body \<^verbatim>\<open>encoding/json\<close> writes for a \<^verbatim>\<open>gin.H\<close> of strings that need no
  escaping (the only one the server builds here has the single key \<open>message\<close>).\<close>

definition json_member :: "string \<times> string \<Rightarrow> string" where
  "json_member kv = ''\"'' @ fst kv @ ''\":\"'' @ snd kv @ ''\"''"

definition json_body :: "(string \<times> string) list \<Rightarrow> string" where
  "json_body h = ''{'' @ strings_Join (map json_member h) '','' @ ''}''"

subsection \<open>The handler (lines 99 to 156)\<close>

text \<open>
  A handler returns its response (\<open>Inr\<close>) or panics (\<open>Inl\<close>, with the runtime's message).
  \<^verbatim>\<open>assetsFS.Open\<close>'s error is dropped, so after a failed \<open>Open\<close> the handler passes the
  \<open>nil\<close> file to \<^verbatim>\<open>io.ReadAll\<close>, whose first \<open>Read\<close> on it is a nil dereference.
\<close>

definition nilDereference :: string where
  "nilDereference = ''runtime error: invalid memory address or nil pointer dereference''"

definition noRoute :: "'p server_env \<Rightarrow> request \<Rightarrow> string + response" where
  "noRoute env c =
     (if \<not> strings_HasPrefix (RequestURI c) (apiRoutePrefix @ ''/'') then
        (let href = baseHref (GetPageByName env) (URL_Path c) in
         case assetsFS_Open env siteDefaultDocument of
           None \<Rightarrow> Inl nilDereference
         | Some indexData \<Rightarrow>
             Inr (Data StatusOK ''text/html'' (rewrite (Config env) href indexData)))
      else Inr (JSON StatusNotFound [(''message'', ''API endpoint not found'')]))"

text \<open>The router is \<^verbatim>\<open>gin.Default()\<close>, whose recovery middleware answers a panicking
  handler with status 500.\<close>

definition gin_Recovery :: "string + response \<Rightarrow> response" where
  "gin_Recovery r = (case r of Inl _ \<Rightarrow> AbortWithStatus StatusInternalServerError | Inr resp \<Rightarrow> resp)"

definition serveNoRoute :: "'p server_env \<Rightarrow> request \<Rightarrow> response" where
  "serveNoRoute env c = gin_Recovery (noRoute env c)"

section \<open>The server's lifecycle\<close>

text \<open>
  Durations are Go's \<^verbatim>\<open>time.Duration\<close>, in nanoseconds. What the lifecycle code does is
  the list of its calls, in order; \<^verbatim>\<open>log.Fatal\<close> and \<^verbatim>\<open>log.Fatalf\<close> exit the process, so
  nothing follows them.
\<close>

definition Millisecond :: int where "Millisecond = 1000000"
definition Second :: int where "Second = 1000 * Millisecond"

datatype go_error = ErrServerClosed | DeadlineExceeded | OtherError string

fun Error :: "go_error \<Rightarrow> string" where
  "Error ErrServerClosed = ''http: Server closed''"
| "Error DeadlineExceeded = ''context deadline exceeded''"
| "Error (OtherError s) = s"

datatype event =
    ListenAndServe
  | Sleep int
  | Shutdown int
  | Println string
  | Fatal string

subsection \<open>The listen goroutine (lines 169 to 180)\<close>

text \<open>\<open>serve i\<close> is what \<^verbatim>\<open>srv.ListenAndServe()\<close> returns in the iteration whose counter
  is \<open>i\<close> (\<open>None\<close> for \<open>nil\<close>).\<close>

function listen_loop :: "(nat \<Rightarrow> go_error option) \<Rightarrow> nat \<Rightarrow> event list" where
  "listen_loop serve i =
     (if i < 10 then
        (let err = serve i in
         if err \<noteq> None \<and> err \<noteq> Some ErrServerClosed then
           ListenAndServe #
             (if i = 9 then [Fatal (''listen: '' @ Error (the err) @ [CHR 0x0A])]
              else Sleep (100 * Millisecond) # listen_loop serve (i + 1))
         else [ListenAndServe])
      else [])"
  by pat_completeness auto
termination
  by (relation "measure (\<lambda>(serve, i). 10 - i)") auto

declare listen_loop.simps [simp del]

definition listen_goroutine :: "(nat \<Rightarrow> go_error option) \<Rightarrow> event list" where
  "listen_goroutine serve = listen_loop serve 1"

subsection \<open>Shutdown (lines 186 to 198)\<close>

text \<open>
  \<open>shutdown d\<close> is what \<^verbatim>\<open>srv.Shutdown\<close> returns under a context that expires after \<open>d\<close>.
  \<^verbatim>\<open>http.Server.Shutdown\<close> returns \<open>nil\<close> once every connection is idle and the context's
  error when the context expires first: \<open>srv_Shutdown\<close>, for a server whose open requests
  need \<open>drain\<close> to finish.
\<close>

definition srv_Shutdown :: "int \<Rightarrow> int \<Rightarrow> go_error option" where
  "srv_Shutdown drain d = (if drain \<le> d then None else Some DeadlineExceeded)"

definition Start_shutdown :: "(int \<Rightarrow> go_error option) \<Rightarrow> event list" where
  "Start_shutdown shutdown =
     Println ''Shutting down server...'' #
       (let timeout = 5 * Second in
        Shutdown timeout #
          (case shutdown timeout of
             Some err \<Rightarrow> [Fatal (''Server forced to shutdown:'' @ Error err)]
           | None \<Rightarrow> [Println ''Server exited'']))"

text \<open>\<^verbatim>\<open><-ctx.Done()\<close>: the main flow does nothing until the context is cancelled.\<close>

definition Start_wait :: "bool \<Rightarrow> (int \<Rightarrow> go_error option) \<Rightarrow> event list" where
  "Start_wait cancelled shutdown = (if cancelled then Start_shutdown shutdown else [])"

section \<open>The WebSocket handler (lines 201 to 215)\<close>

text \<open>
  \<^verbatim>\<open>upgrader\<close> is a package variable; the handler assigns its \<open>CheckOrigin\<close> on every call,
  so the handler takes the variable and returns it. \<^verbatim>\<open>Upgrader.Upgrade\<close> (gorilla) checks
  the handshake headers, then the origin (with \<open>checkSameOrigin\<close> when \<open>CheckOrigin\<close> is
  \<open>nil\<close>), then takes over the connection; the three parts the library owns are the
  fields of \<open>websocket_lib\<close>.
\<close>

record upgrader =
  ReadBufferSize :: nat
  WriteBufferSize :: nat
  CheckOrigin :: "(request \<Rightarrow> bool) option"

definition upgrader0 :: upgrader where
  "upgrader0 = \<lparr>ReadBufferSize = 1024, WriteBufferSize = 1024, CheckOrigin = None\<rparr>"

record 'c websocket_lib =
  checkHeaders :: "request \<Rightarrow> string option"
  checkSameOrigin :: "request \<Rightarrow> bool"
  hijack :: "request \<Rightarrow> string + 'c"

definition Upgrade :: "'c websocket_lib \<Rightarrow> upgrader \<Rightarrow> request \<Rightarrow> string + 'c" where
  "Upgrade lib u r =
     (case checkHeaders lib r of
        Some err \<Rightarrow> Inl err
      | None \<Rightarrow>
          (let checkOrigin = (case CheckOrigin u of None \<Rightarrow> checkSameOrigin lib | Some f \<Rightarrow> f) in
           if \<not> checkOrigin r
           then Inl ''websocket: request origin not allowed by Upgrader.CheckOrigin''
           else hijack lib r))"

datatype 'c page_connection = NewWebSocket 'c

datatype 'c effect =
    Errorln string string
  | NewClient "'c page_connection" string string

definition websocketHandler ::
  "'c websocket_lib \<Rightarrow> upgrader \<Rightarrow> request \<Rightarrow> upgrader \<times> 'c effect list" where
  "websocketHandler lib u c =
     (let u' = u\<lparr>CheckOrigin := Some (\<lambda>r. True)\<rparr> in
      case Upgrade lib u' c of
        Inl err \<Rightarrow> (u', [Errorln ''Error upgrading WebSocket connection:'' err])
      | Inr conn \<Rightarrow> (u', [NewClient (NewWebSocket conn) (ClientIP c) (UserAgent c)]))"

section \<open>Vocabulary of the properties\<close>

text \<open>An attempt of the listen loop fails when \<^verbatim>\<open>ListenAndServe\<close> returns an error other
  than \<^verbatim>\<open>http.ErrServerClosed\<close>; a failed attempt that is not the last is followed by the
  100 ms sleep.\<close>

definition failing :: "(nat \<Rightarrow> go_error option) \<Rightarrow> nat \<Rightarrow> bool" where
  "failing serve i = (serve i \<noteq> None \<and> serve i \<noteq> Some ErrServerClosed)"

definition retry_round :: "event list" where
  "retry_round = [ListenAndServe, Sleep (100 * Millisecond)]"

text \<open>The segments of a request path: the parts of the trimmed path between its slashes,
  as the handler splits it.\<close>

definition segments :: "string \<Rightarrow> string list" where
  "segments path = strings_Split (strings_Trim path ''/'') ''/''"

text \<open>\<open>occurrences m d\<close> counts the offsets of \<open>d\<close> at which an instance of \<open>m\<close> starts.\<close>

fun occurrences :: "string \<Rightarrow> string \<Rightarrow> nat" where
  "occurrences m [] = (if m = [] then 1 else 0)"
| "occurrences m (c # cs) = (if strings_HasPrefix (c # cs) m then 1 else 0) + occurrences m cs"

text \<open>
  A substitution \<open>step\<close> replaces the first instance of the marker \<open>m\<close> by \<open>r\<close>: a document
  without the marker is left as it is, and in a document \<open>x @ m @ y\<close> whose leftmost
  instance of \<open>m\<close> is the one after \<open>x\<close>, only that instance changes.
\<close>

definition replaces_first :: "(string \<Rightarrow> string) \<Rightarrow> string \<Rightarrow> string \<Rightarrow> bool" where
  "replaces_first step m r =
     (\<forall>d. ((\<nexists>x y. d = x @ m @ y) \<longrightarrow> step d = d) \<and>
          (\<forall>x y. d = x @ m @ y \<and> (\<forall>x' y'. d = x' @ m @ y' \<longrightarrow> length x \<le> length x') \<longrightarrow>
                 step d = x @ r @ y))"

text \<open>
  A text \<open>a\<close> is isolated from a marker \<open>m\<close> when, wherever \<open>a\<close> stands in a document, no
  instance of \<open>m\<close> shares a byte with it: every instance of \<open>m\<close> in \<open>x @ a @ y\<close> lies
  within \<open>x\<close> or within \<open>y\<close>. \<open>apart a m\<close> is a test on the two texts that ensures it: no
  proper suffix of \<open>m\<close> is a prefix of \<open>a\<close> or starts with \<open>a\<close>, and no suffix of \<open>a\<close>
  (\<open>a\<close> itself included) is a prefix of \<open>m\<close> or starts with \<open>m\<close>.
\<close>

definition comparable :: "string \<Rightarrow> string \<Rightarrow> bool" where
  "comparable a b = (strings_HasPrefix a b \<or> strings_HasPrefix b a)"

definition apart :: "string \<Rightarrow> string \<Rightarrow> bool" where
  "apart r m =
     (list_all (\<lambda>u. \<not> comparable (drop u m) r) [1..<length m] \<and>
      list_all (\<lambda>v. \<not> comparable (drop v r) m) [0..<length r])"

definition isolated :: "string \<Rightarrow> string \<Rightarrow> bool" where
  "isolated a m =
     (\<forall>x y k. k \<le> length (x @ a @ y) \<and> strings_HasPrefix (drop k (x @ a @ y)) m \<longrightarrow>
        k + length m \<le> length x \<or> length x + length a \<le> k)"

text \<open>
  The four substitutions of the rewrite, by name, and the rewrite with its statements
  in any order. A substitution is inert when it cannot change a document: the renderer's
  with no renderer configured, and any whose replacement is its own marker (the base
  href \<open>/\<close>). A configuration is compatible with the markers when the replacement of
  every substitution that is not inert is apart from the markers of the other three.
\<close>

datatype substitution = SubstBaseHref | SubstRouteUrlStrategy | SubstWebRenderer | SubstColorEmoji

definition substitutions :: "substitution list" where
  "substitutions = [SubstBaseHref, SubstRouteUrlStrategy, SubstWebRenderer, SubstColorEmoji]"

fun marker :: "substitution \<Rightarrow> string" where
  "marker SubstBaseHref = baseHrefMarker"
| "marker SubstRouteUrlStrategy = routeUrlStrategyMarker"
| "marker SubstWebRenderer = webRendererMarker"
| "marker SubstColorEmoji = colorEmojiMarker"

fun replacement :: "config \<Rightarrow> string \<Rightarrow> substitution \<Rightarrow> string" where
  "replacement cfg href SubstBaseHref = baseHrefTag href"
| "replacement cfg href SubstRouteUrlStrategy = RouteUrlStrategy cfg"
| "replacement cfg href SubstWebRenderer = webRendererScript (WebRenderer cfg)"
| "replacement cfg href SubstColorEmoji = colorEmojiScript (UseColorEmoji cfg)"

fun substitute :: "config \<Rightarrow> string \<Rightarrow> substitution \<Rightarrow> string \<Rightarrow> string" where
  "substitute cfg href SubstBaseHref = replaceBaseHref href"
| "substitute cfg href SubstRouteUrlStrategy = replaceRouteUrlStrategy cfg"
| "substitute cfg href SubstWebRenderer = replaceWebRenderer cfg"
| "substitute cfg href SubstColorEmoji = replaceColorEmoji cfg"

definition in_order :: "config \<Rightarrow> string \<Rightarrow> substitution list \<Rightarrow> string \<Rightarrow> string" where
  "in_order cfg href order indexData = fold (substitute cfg href) order indexData"

definition inert :: "config \<Rightarrow> string \<Rightarrow> substitution \<Rightarrow> bool" where
  "inert cfg href s =
     ((s = SubstWebRenderer \<and> WebRenderer cfg = []) \<or> replacement cfg href s = marker s)"

definition compatible :: "config \<Rightarrow> string \<Rightarrow> bool" where
  "compatible cfg href =
     list_all (\<lambda>s. inert cfg href s \<or>
                  list_all (\<lambda>t. t = s \<or> apart (replacement cfg href s) (marker t)) substitutions)
       substitutions"

section \<open>Instances of a marker in a document\<close>

subsection \<open>Prefixes and the first instance\<close>

lemma HasPrefix_iff: "strings_HasPrefix s p \<longleftrightarrow> (\<exists>t. s = p @ t)"
proof
  assume "strings_HasPrefix s p"
  then have "s = p @ drop (length p) s"
    by (metis strings_HasPrefix_def append_take_drop_id)
  then show "\<exists>t. s = p @ t" ..
next
  assume "\<exists>t. s = p @ t"
  then show "strings_HasPrefix s p" by (auto simp: strings_HasPrefix_def)
qed

lemma HasPrefix_append: "strings_HasPrefix s p \<Longrightarrow> strings_HasPrefix (s @ t) p"
  by (auto simp: HasPrefix_iff)

lemma HasPrefix_long: "length p \<le> length s \<Longrightarrow> strings_HasPrefix (s @ t) p = strings_HasPrefix s p"
  by (simp add: strings_HasPrefix_def)

lemma HasPrefix_comparable: "strings_HasPrefix (a @ b) p \<Longrightarrow> comparable a p"
proof (cases "length p \<le> length a")
  case True
  assume "strings_HasPrefix (a @ b) p"
  with True show ?thesis by (simp add: comparable_def HasPrefix_long)
next
  case False
  assume "strings_HasPrefix (a @ b) p"
  then have "take (length p) (a @ b) = p" by (simp add: strings_HasPrefix_def)
  then have "take (length a) p = a" using False
    by (metis append_eq_conv_conj nat_le_linear take_all take_append take_take min.absorb1 min.absorb2)
  with False show ?thesis by (simp add: comparable_def strings_HasPrefix_def)
qed

lemma Index_None_iff: "bytes_Index d m = None \<longleftrightarrow> occurrences m d = 0"
  by (induction d) auto

lemma Index_SomeD:
  "bytes_Index d m = Some j \<Longrightarrow>
     j \<le> length d \<and> strings_HasPrefix (drop j d) m \<and> (\<forall>i<j. \<not> strings_HasPrefix (drop i d) m)"
proof (induction d arbitrary: j)
  case Nil
  then show ?case by (auto simp: strings_HasPrefix_def split: if_splits)
next
  case (Cons c cs)
  show ?case
  proof (cases "strings_HasPrefix (c # cs) m")
    case True
    with Cons.prems show ?thesis by simp
  next
    case False
    with Cons.prems obtain j' where j': "bytes_Index cs m = Some j'" "j = Suc j'" by auto
    from Cons.IH [OF j'(1)] False j'(2) show ?thesis
      by (auto simp: less_Suc_eq_0_disj)
  qed
qed

lemma Index_NoneD: "bytes_Index d m = None \<Longrightarrow> i \<le> length d \<Longrightarrow> \<not> strings_HasPrefix (drop i d) m"
proof (induction d arbitrary: i)
  case Nil
  then show ?case by (auto simp: strings_HasPrefix_def split: if_splits)
next
  case (Cons c cs)
  then show ?case by (cases i) (auto split: if_splits)
qed

lemma instance_at: "strings_HasPrefix (drop (length x) (x @ m @ y)) m"
  by (simp add: HasPrefix_iff)

lemma split_at_instance:
  "j \<le> length d \<Longrightarrow> strings_HasPrefix (drop j d) m \<Longrightarrow> d = take j d @ m @ drop (j + length m) d"
proof -
  assume "j \<le> length d" and "strings_HasPrefix (drop j d) m"
  then obtain t where t: "drop j d = m @ t" by (auto simp: HasPrefix_iff)
  then have "drop (j + length m) d = t"
    by (metis add.commute append_eq_conv_conj drop_drop)
  with t show ?thesis by (metis append_take_drop_id)
qed

lemma Index_absent: "(\<nexists>x y. d = x @ m @ y) \<Longrightarrow> bytes_Index d m = None"
proof (rule ccontr)
  assume no: "\<nexists>x y. d = x @ m @ y" and "bytes_Index d m \<noteq> None"
  then obtain j where "bytes_Index d m = Some j" by auto
  from Index_SomeD [OF this] have "d = take j d @ m @ drop (j + length m) d"
    by (simp add: split_at_instance)
  with no show False by blast
qed

lemma Index_first:
  assumes d: "d = x @ m @ y"
    and least: "\<And>x' y'. d = x' @ m @ y' \<Longrightarrow> length x \<le> length x'"
  shows "bytes_Index d m = Some (length x)"
proof (cases "bytes_Index d m")
  case None
  from Index_NoneD [OF None, of "length x"] d instance_at [of x m y] show ?thesis by simp
next
  case (Some j)
  note j = Index_SomeD [OF Some]
  from j have "d = take j d @ m @ drop (j + length m) d" by (simp add: split_at_instance)
  from least [OF this] j have 1: "length x \<le> j" by simp
  have "\<not> length x < j"
  proof
    assume "length x < j"
    with j have "\<not> strings_HasPrefix (drop (length x) d) m" by blast
    with d instance_at [of x m y] show False by simp
  qed
  with 1 Some show ?thesis by simp
qed

lemma Replace1_absent: "(\<nexists>x y. d = x @ m @ y) \<Longrightarrow> bytes_Replace1 d m r = d"
  by (simp add: bytes_Replace1_def Index_absent)

lemma Replace1_first:
  "d = x @ m @ y \<Longrightarrow> (\<And>x' y'. d = x' @ m @ y' \<Longrightarrow> length x \<le> length x')
     \<Longrightarrow> bytes_Replace1 d m r = x @ r @ y"
  using Index_first [of d x m y] by (simp add: bytes_Replace1_def)

subsection \<open>Counting instances\<close>

lemma occurrences_short: "length d < length m \<Longrightarrow> occurrences m d = 0"
  by (induction d) (auto simp: strings_HasPrefix_def)

lemma occurrences_self: "m \<noteq> [] \<Longrightarrow> occurrences m m = 1"
  by (cases m) (auto simp: strings_HasPrefix_def occurrences_short)

lemma occurrences_append_ge:
  "m \<noteq> [] \<Longrightarrow> occurrences m x + occurrences m z \<le> occurrences m (x @ z)"
proof (induction x)
  case Nil
  then show ?case by simp
next
  case (Cons c cs)
  have "strings_HasPrefix (c # cs) m \<Longrightarrow> strings_HasPrefix (c # cs @ z) m"
    using HasPrefix_append [of "c # cs" m z] by simp
  with Cons show ?case by auto
qed

lemma occurrences_last: "m \<noteq> [] \<Longrightarrow> 1 \<le> occurrences m (x @ m)"
  using occurrences_append_ge [of m x m] by (simp add: occurrences_self)

lemma isolated_tail:
  assumes m: "m \<noteq> []" and iso: "isolated a m"
  shows "v \<le> length a \<Longrightarrow> occurrences m (drop v a @ y) = occurrences m y"
proof (induction n \<equiv> "length a - v" arbitrary: v)
  case 0
  then show ?case by simp
next
  case (Suc n)
  then have v: "v < length a" by simp
  have no: "\<not> strings_HasPrefix (drop v a @ y) m"
  proof
    assume "strings_HasPrefix (drop v a @ y) m"
    then have "v \<le> length ([] @ a @ y) \<and> strings_HasPrefix (drop v ([] @ a @ y)) m"
      using v by simp
    with iso have "v + length m \<le> length ([]::string) \<or> length ([]::string) + length a \<le> v"
      unfolding isolated_def by blast
    with m v show False by simp
  qed
  have ih: "occurrences m (drop (Suc v) a @ y) = occurrences m y"
    using Suc v by (intro Suc.hyps(1)) auto
  have "drop v a = a ! v # drop (Suc v) a" using v by (simp add: Cons_nth_drop_Suc)
  then have "occurrences m (drop v a @ y) =
      (if strings_HasPrefix (drop v a @ y) m then 1 else 0) + occurrences m (drop (Suc v) a @ y)"
    by (metis append_Cons occurrences.simps(2))
  with no ih show ?case by simp
qed

lemma isolated_count:
  assumes m: "m \<noteq> []" and iso: "isolated a m"
  shows "occurrences m (x @ a @ y) = occurrences m x + occurrences m y"
proof (induction x)
  case Nil
  from isolated_tail [OF m iso, of 0 y] m show ?case by simp
next
  case (Cons c cs)
  have "strings_HasPrefix ((c # cs) @ a @ y) m \<longleftrightarrow> strings_HasPrefix (c # cs) m"
  proof
    assume h: "strings_HasPrefix ((c # cs) @ a @ y) m"
    then have "0 \<le> length ((c # cs) @ a @ y) \<and> strings_HasPrefix (drop 0 ((c # cs) @ a @ y)) m"
      by simp
    with iso have "0 + length m \<le> length (c # cs) \<or> length (c # cs) + length a \<le> 0"
      unfolding isolated_def by blast
    then have "length m \<le> length (c # cs)" by simp
    with h show "strings_HasPrefix (c # cs) m" by (simp only: HasPrefix_long)
  next
    assume "strings_HasPrefix (c # cs) m"
    then show "strings_HasPrefix ((c # cs) @ a @ y) m" by (rule HasPrefix_append)
  qed
  with Cons show ?case by simp
qed

lemma apart_isolated:
  assumes ap: "apart r m"
  shows "isolated r m"
  unfolding isolated_def
proof (intro allI impI)
  fix x y k
  assume h: "k \<le> length (x @ r @ y) \<and> strings_HasPrefix (drop k (x @ r @ y)) m"
  show "k + length m \<le> length x \<or> length x + length r \<le> k"
  proof (rule ccontr)
    assume "\<not> ?thesis"
    then have lo: "length x < k + length m" and hi: "k < length x + length r" by auto
    show False
    proof (cases "k < length x")
      case True
      define u where "u = length x - k"
      have u: "1 \<le> u" "u < length m" using True lo by (auto simp: u_def)
      have "drop k (x @ r @ y) = drop k x @ r @ y" using True by simp
      with h obtain t where t: "drop k x @ r @ y = m @ t" by (auto simp: HasPrefix_iff)
      have "length (drop k x) = u" by (simp add: u_def)
      with t have "r @ y = drop u m @ t" using u
        by (metis append_eq_conv_conj drop_append less_imp_le_nat diff_is_0_eq' drop_0 drop_all order_refl)
      then have "strings_HasPrefix (r @ y) (drop u m)" by (auto simp: HasPrefix_iff)
      then have "comparable r (drop u m)" by (rule HasPrefix_comparable)
      then have "comparable (drop u m) r" by (auto simp: comparable_def)
      moreover from ap u have "\<not> comparable (drop u m) r"
        by (auto simp: apart_def list_all_iff)
      ultimately show False by simp
    next
      case False
      define v where "v = k - length x"
      have v: "v < length r" using False hi by (auto simp: v_def)
      have "drop k (x @ r @ y) = drop v r @ y" using False v by (simp add: v_def)
      with h have "strings_HasPrefix (drop v r @ y) m" by simp
      then have "comparable (drop v r) m" by (rule HasPrefix_comparable)
      moreover from ap v have "\<not> comparable (drop v r) m"
        by (auto simp: apart_def list_all_iff)
      ultimately show False by simp
    qed
  qed
qed

lemma Index_unique_first:
  "m \<noteq> [] \<Longrightarrow> occurrences m (x @ m) = 1 \<Longrightarrow> bytes_Index (x @ m @ y) m = Some (length x)"
proof (induction x)
  case Nil
  then show ?case by (cases m) (auto simp: HasPrefix_iff)
next
  case (Cons c cs)
  have eq: "strings_HasPrefix ((c # cs) @ m @ y) m = strings_HasPrefix ((c # cs) @ m) m"
    using HasPrefix_long [of m "(c # cs) @ m" y] by simp
  from Cons.prems occurrences_last [of m cs]
  have no: "\<not> strings_HasPrefix ((c # cs) @ m) m" and one: "occurrences m (cs @ m) = 1"
    by (auto split: if_splits)
  from Cons.IH [OF Cons.prems(1) one] no eq show ?case by simp
qed

lemma Index_Some_count:
  "m \<noteq> [] \<Longrightarrow> bytes_Index d m = Some j \<Longrightarrow>
     d = take j d @ m @ drop (j + length m) d \<and> occurrences m (take j d @ m) = 1"
proof (induction d arbitrary: j)
  case Nil
  then show ?case by simp
next
  case (Cons c cs)
  show ?case
  proof (cases "strings_HasPrefix (c # cs) m")
    case True
    with Cons.prems have "j = 0" by simp
    with True Cons.prems(1) show ?thesis
      using split_at_instance [of 0 "c # cs" m] by (simp add: occurrences_self)
  next
    case False
    with Cons.prems obtain j' where j': "bytes_Index cs m = Some j'" "j = Suc j'" by auto
    note ih = Cons.IH [OF Cons.prems(1) j'(1)]
    from ih have cs: "cs = take j' cs @ m @ drop (j' + length m) cs" by simp
    have "strings_HasPrefix (c # take j' cs @ m) m = strings_HasPrefix (c # cs) m"
      using HasPrefix_long [of m "c # take j' cs @ m" "drop (j' + length m) cs"] cs
      by (metis append_Cons append_assoc length_Cons length_append le_add2 le_SucI)
    with False ih j'(2) cs show ?thesis by simp
  qed
qed

lemma Replace1_unique_first:
  "m \<noteq> [] \<Longrightarrow> occurrences m (x @ m) = 1 \<Longrightarrow> bytes_Replace1 (x @ m @ y) m r = x @ r @ y"
  by (simp add: bytes_Replace1_def Index_unique_first)

subsection \<open>One substitution after another\<close>

lemma Replace1_same: "bytes_Replace1 d m m = d"
proof (cases "bytes_Index d m")
  case None
  then show ?thesis by (simp add: bytes_Replace1_def)
next
  case (Some j)
  from Index_SomeD [OF Some] have "d = take j d @ m @ drop (j + length m) d"
    by (simp add: split_at_instance)
  with Some show ?thesis by (simp add: bytes_Replace1_def)
qed

lemma Replace1_cases:
  obtains (absent) "bytes_Index d m = None" "bytes_Replace1 d m r = d"
  | (present) x y where "d = x @ m @ y" "bytes_Replace1 d m r = x @ r @ y"
      "bytes_Index d m = Some (length x)"
proof (cases "bytes_Index d m")
  case None
  then show ?thesis using absent by (simp add: bytes_Replace1_def)
next
  case (Some j)
  note j = Index_SomeD [OF Some]
  then have d: "d = take j d @ m @ drop (j + length m) d" by (simp add: split_at_instance)
  have "bytes_Replace1 d m r = take j d @ r @ drop (j + length m) d"
    using Some by (simp add: bytes_Replace1_def)
  moreover have "bytes_Index d m = Some (length (take j d))" using Some j by simp
  ultimately show ?thesis using present [of "take j d" "drop (j + length m) d"] d by blast
qed

lemma Replace1_count:
  assumes m: "m \<noteq> []" and old: "isolated m' m" and new: "isolated r m"
  shows "occurrences m (bytes_Replace1 d m' r) = occurrences m d"
proof (cases rule: Replace1_cases [of d m' r])
  case absent
  then show ?thesis by simp
next
  case (present x y)
  then show ?thesis
    using isolated_count [OF m old, of x y] isolated_count [OF m new, of x y] by simp
qed

lemma Replace1_count_ge:
  assumes m: "m \<noteq> []" and old: "isolated m' m"
  shows "occurrences m d \<le> occurrences m (bytes_Replace1 d m' r)"
proof (cases rule: Replace1_cases [of d m' r])
  case absent
  then show ?thesis by simp
next
  case (present x y)
  have "occurrences m x + occurrences m y \<le> occurrences m x + occurrences m (r @ y)"
    using occurrences_append_ge [OF m, of r y] by simp
  also have "\<dots> \<le> occurrences m (x @ r @ y)" by (rule occurrences_append_ge [OF m])
  finally show ?thesis
    using present isolated_count [OF m old, of x y] by simp
qed

lemma Replace1_commute_ordered:
  assumes m1: "m1 \<noteq> []" and m2: "m2 \<noteq> []"
    and new: "isolated r2 m1" and old: "isolated m2 m1"
    and first2: "occurrences m2 (x @ m2) = 1"
    and first1: "occurrences m1 (x @ m2 @ z @ m1) = 1"
  shows "bytes_Replace1 (bytes_Replace1 (x @ m2 @ z @ m1 @ y) m1 r1) m2 r2 =
         bytes_Replace1 (bytes_Replace1 (x @ m2 @ z @ m1 @ y) m2 r2) m1 r1"
proof -
  have a: "bytes_Replace1 (x @ m2 @ z @ m1 @ y) m1 r1 = x @ m2 @ z @ r1 @ y"
    using Replace1_unique_first [OF m1, of "x @ m2 @ z" y r1] first1 by simp
  have b: "bytes_Replace1 (x @ m2 @ z @ r1 @ y) m2 r2 = x @ r2 @ z @ r1 @ y"
    using Replace1_unique_first [OF m2 first2, of "z @ r1 @ y" r2] by simp
  have c: "bytes_Replace1 (x @ m2 @ z @ m1 @ y) m2 r2 = x @ r2 @ z @ m1 @ y"
    using Replace1_unique_first [OF m2 first2, of "z @ m1 @ y" r2] by simp
  have "occurrences m1 (x @ r2 @ z @ m1) = occurrences m1 x + occurrences m1 (z @ m1)"
    by (rule isolated_count [OF m1 new])
  also have "\<dots> = occurrences m1 (x @ m2 @ z @ m1)"
    by (rule isolated_count [OF m1 old, symmetric])
  finally have "occurrences m1 ((x @ r2 @ z) @ m1) = 1" using first1 by simp
  from Replace1_unique_first [OF m1 this, of y r1]
  have d: "bytes_Replace1 (x @ r2 @ z @ m1 @ y) m1 r1 = x @ r2 @ z @ r1 @ y" by simp
  show ?thesis by (simp only: a b c d)
qed

lemma Replace1_commute:
  assumes m1: "m1 \<noteq> []" and m2: "m2 \<noteq> []"
    and o12: "isolated m1 m2" and o21: "isolated m2 m1"
    and n12: "isolated r1 m2" and n21: "isolated r2 m1"
  shows "bytes_Replace1 (bytes_Replace1 d m1 r1) m2 r2 =
         bytes_Replace1 (bytes_Replace1 d m2 r2) m1 r1"
proof (cases "bytes_Index d m1 = None \<or> bytes_Index d m2 = None")
  case True
  then show ?thesis
  proof
    assume n: "bytes_Index d m1 = None"
    then have "occurrences m1 (bytes_Replace1 d m2 r2) = 0"
      using Replace1_count [OF m1 o21 n21, of d] by (simp add: Index_None_iff)
    then have "bytes_Index (bytes_Replace1 d m2 r2) m1 = None" by (simp add: Index_None_iff)
    with n show ?thesis by (simp add: bytes_Replace1_def)
  next
    assume n: "bytes_Index d m2 = None"
    then have "occurrences m2 (bytes_Replace1 d m1 r1) = 0"
      using Replace1_count [OF m2 o12 n12, of d] by (simp add: Index_None_iff)
    then have "bytes_Index (bytes_Replace1 d m1 r1) m2 = None" by (simp add: Index_None_iff)
    with n show ?thesis by (simp add: bytes_Replace1_def)
  qed
next
  case False
  then obtain j1 j2 where j1: "bytes_Index d m1 = Some j1" and j2: "bytes_Index d m2 = Some j2"
    by auto
  define x1 y1 x2 y2 where "x1 = take j1 d" and "y1 = drop (j1 + length m1) d"
    and "x2 = take j2 d" and "y2 = drop (j2 + length m2) d"
  from Index_Some_count [OF m1 j1] have d1: "d = x1 @ m1 @ y1" and c1: "occurrences m1 (x1 @ m1) = 1"
    by (simp_all add: x1_def y1_def)
  from Index_Some_count [OF m2 j2] have d2: "d = x2 @ m2 @ y2" and c2: "occurrences m2 (x2 @ m2) = 1"
    by (simp_all add: x2_def y2_def)
  from Index_SomeD [OF j1] have l1: "length x1 = j1" by (simp add: x1_def)
  from Index_SomeD [OF j2] have l2: "length x2 = j2" by (simp add: x2_def)
  have "j2 \<le> length (x1 @ m1 @ y1) \<and> strings_HasPrefix (drop j2 (x1 @ m1 @ y1)) m2"
    using Index_SomeD [OF j2] d1 by simp
  with o12 have "j2 + length m2 \<le> length x1 \<or> length x1 + length m1 \<le> j2"
    unfolding isolated_def by blast
  then show ?thesis
  proof
    assume le: "j2 + length m2 \<le> length x1"
    from d1 d2 have "x1 @ (m1 @ y1) = (x2 @ m2) @ y2" by simp
    then obtain z where z: "x1 = (x2 @ m2) @ z"
      using le l2 by (auto simp: append_eq_append_conv2)
    then have d: "d = x2 @ m2 @ z @ m1 @ y1" using d1 by simp
    have "occurrences m1 (x2 @ m2 @ z @ m1) = 1" using c1 z by simp
    from Replace1_commute_ordered [OF m1 m2 n21 o21 c2 this, of y1 r1]
    show ?thesis by (simp only: d)
  next
    assume le: "length x1 + length m1 \<le> j2"
    from d1 d2 have "x2 @ (m2 @ y2) = (x1 @ m1) @ y1" by simp
    then obtain z where z: "x2 = (x1 @ m1) @ z"
      using le l2 by (auto simp: append_eq_append_conv2)
    then have d: "d = x1 @ m1 @ z @ m2 @ y2" using d2 by simp
    have "occurrences m2 (x1 @ m1 @ z @ m2) = 1" using c2 z by simp
    from Replace1_commute_ordered [OF m2 m1 n12 o12 c1 this, of y2 r2]
    show ?thesis by (simp only: d)
  qed
qed

subsection \<open>The four markers\<close>

lemma marker_nonempty: "marker s \<noteq> []"
  by (cases s)
    (simp_all add: baseHrefMarker_def routeUrlStrategyMarker_def webRendererMarker_def
      colorEmojiMarker_def)

lemma markers_apart:
  "apart baseHrefMarker routeUrlStrategyMarker" "apart baseHrefMarker webRendererMarker"
  "apart baseHrefMarker colorEmojiMarker" "apart routeUrlStrategyMarker baseHrefMarker"
  "apart routeUrlStrategyMarker webRendererMarker" "apart routeUrlStrategyMarker colorEmojiMarker"
  "apart webRendererMarker baseHrefMarker" "apart webRendererMarker routeUrlStrategyMarker"
  "apart webRendererMarker colorEmojiMarker" "apart colorEmojiMarker baseHrefMarker"
  "apart colorEmojiMarker routeUrlStrategyMarker" "apart colorEmojiMarker webRendererMarker"
  by code_simp+

lemma markers_isolated: "s \<noteq> t \<Longrightarrow> isolated (marker s) (marker t)"
  by (cases s; cases t) (simp_all add: markers_apart apart_isolated)

lemma substitute_Replace1:
  "substitute cfg href s d =
     (if s = SubstWebRenderer \<and> WebRenderer cfg = [] then d
      else bytes_Replace1 d (marker s) (replacement cfg href s))"
  by (cases s)
    (simp_all add: replaceBaseHref_def replaceRouteUrlStrategy_def replaceWebRenderer_def
      replaceColorEmoji_def)

lemma inert_substitute: "inert cfg href s \<Longrightarrow> substitute cfg href s d = d"
  by (auto simp: inert_def substitute_Replace1 Replace1_same)

lemma all_substitutions: "s \<in> set substitutions"
  by (cases s) (simp_all add: substitutions_def)

lemma compatible_isolated:
  assumes "compatible cfg href" and "\<not> inert cfg href s" and "t \<noteq> s"
  shows "isolated (replacement cfg href s) (marker t)"
proof -
  have "s \<in> set substitutions" and "t \<in> set substitutions"
    by (rule all_substitutions)+
  with assms have "apart (replacement cfg href s) (marker t)"
    by (auto simp: compatible_def list_all_iff)
  then show ?thesis by (rule apart_isolated)
qed

lemma substitute_commute:
  assumes c: "compatible cfg href" and ne: "s \<noteq> t"
  shows "substitute cfg href s (substitute cfg href t d) =
         substitute cfg href t (substitute cfg href s d)"
proof (cases "inert cfg href s \<or> inert cfg href t")
  case True
  then show ?thesis by (auto simp: inert_substitute)
next
  case False
  then have ns: "\<not> inert cfg href s" and nt: "\<not> inert cfg href t" by auto
  then have e: "\<not> (s = SubstWebRenderer \<and> WebRenderer cfg = [])"
    "\<not> (t = SubstWebRenderer \<and> WebRenderer cfg = [])" by (auto simp: inert_def)
  from ne have ne': "t \<noteq> s" by simp
  have rs: "substitute cfg href s = (\<lambda>d. bytes_Replace1 d (marker s) (replacement cfg href s))"
    using e(1) by (auto simp add: substitute_Replace1 fun_eq_iff)
  have rt: "substitute cfg href t = (\<lambda>d. bytes_Replace1 d (marker t) (replacement cfg href t))"
    using e(2) by (auto simp add: substitute_Replace1 fun_eq_iff)
  show ?thesis
    unfolding rs rt
    by (rule Replace1_commute [OF marker_nonempty marker_nonempty
        markers_isolated [OF ne'] markers_isolated [OF ne]
        compatible_isolated [OF c nt ne] compatible_isolated [OF c ns ne']])
qed

lemma substitute_count:
  assumes c: "compatible cfg href" and ne: "s \<noteq> t"
  shows "occurrences (marker t) (substitute cfg href s d) = occurrences (marker t) d"
proof (cases "inert cfg href s")
  case True
  then show ?thesis by (simp add: inert_substitute)
next
  case False
  then have e: "\<not> (s = SubstWebRenderer \<and> WebRenderer cfg = [])" by (auto simp: inert_def)
  from ne have ne': "t \<noteq> s" by simp
  have rs: "substitute cfg href s = (\<lambda>d. bytes_Replace1 d (marker s) (replacement cfg href s))"
    using e by (auto simp add: substitute_Replace1 fun_eq_iff)
  show ?thesis
    unfolding rs
    by (rule Replace1_count [OF marker_nonempty markers_isolated [OF ne]
        compatible_isolated [OF c False ne']])
qed

lemma in_order_count:
  assumes c: "compatible cfg href"
  shows "s \<notin> set pre \<Longrightarrow>
    occurrences (marker s) (in_order cfg href pre d) = occurrences (marker s) d"
proof (induction pre arbitrary: d)
  case Nil
  show ?case by (simp add: in_order_def)
next
  case (Cons t pre)
  then have "t \<noteq> s" and "s \<notin> set pre" by auto
  with Cons.IH [of "substitute cfg href t d"] substitute_count [OF c, of t s d]
  show ?case by (simp add: in_order_def)
qed

lemma rewrite_in_order: "rewrite cfg href d = in_order cfg href substitutions d"
  by (simp add: rewrite_def in_order_def substitutions_def)

lemma in_order_snoc:
  "in_order cfg href (pre @ [s]) d = substitute cfg href s (in_order cfg href pre d)"
  by (simp add: in_order_def)

lemma present_iff: "(\<exists>x y. d = x @ m @ y) \<longleftrightarrow> 0 < occurrences m d"
proof
  assume "\<exists>x y. d = x @ m @ y"
  then obtain x y where d: "d = x @ m @ y" by blast
  have "bytes_Index d m \<noteq> None"
    using Index_NoneD [of d m "length x"] instance_at [of x m y] d by auto
  then show "0 < occurrences m d" by (simp add: Index_None_iff)
next
  assume "0 < occurrences m d"
  then have "bytes_Index d m \<noteq> None" by (simp add: Index_None_iff)
  with Index_absent [of d m] show "\<exists>x y. d = x @ m @ y" by blast
qed

section \<open>Page name resolution\<close>

lemma Split_slash:
  "strings_Split s ''/'' =
     (case bytes_Index s ''/'' of
        None \<Rightarrow> [s]
      | Some i \<Rightarrow> take i s # strings_Split (drop (i + 1) s) ''/'')"
  by (subst strings_Split.simps) (simp split: option.splits)

lemma Split_nonempty: "strings_Split s ''/'' \<noteq> []"
  by (subst Split_slash) (simp split: option.splits)

lemma Index_slash_Some:
  assumes "bytes_Index s ''/'' = Some i"
  shows "i < length s" and "s ! i = CHR ''/''"
proof -
  from Index_SomeD [OF assms] have "i \<le> length s" and "strings_HasPrefix (drop i s) ''/''"
    by simp_all
  then obtain t where t: "drop i s = CHR ''/'' # t" by (auto simp: HasPrefix_iff)
  then show "i < length s" by (metis drop_all list.distinct(1) not_le)
  then show "s ! i = CHR ''/''" using t by (metis Cons_nth_drop_Suc list.inject)
qed

lemma Trim_ends:
  "strings_Trim path ''/'' = [] \<or>
   (hd (strings_Trim path ''/'') \<noteq> CHR ''/'' \<and> last (strings_Trim path ''/'') \<noteq> CHR ''/'')"
proof (cases "strings_Trim path ''/'' = []")
  case True
  then show ?thesis by simp
next
  case False
  define u where "u = rev (dropWhile (\<lambda>c. c = CHR ''/'') (rev path))"
  have t: "strings_Trim path ''/'' = dropWhile (\<lambda>c. c = CHR ''/'') u"
    by (simp add: strings_Trim_def trimLeft_def trimRight_def u_def)
  from False t have une: "u \<noteq> []" by auto
  then have "dropWhile (\<lambda>c. c = CHR ''/'') (rev path) \<noteq> []" by (simp add: u_def)
  then have "hd (dropWhile (\<lambda>c. c = CHR ''/'') (rev path)) \<noteq> CHR ''/''"
    by (rule hd_dropWhile)
  then have lu: "last u \<noteq> CHR ''/''" using une by (simp add: u_def last_rev)
  have "hd (strings_Trim path ''/'') \<noteq> CHR ''/''"
    using False hd_dropWhile [of "\<lambda>c. c = CHR ''/''" u] by (simp add: t)
  moreover have "last (strings_Trim path ''/'') = last u"
  proof -
    have "u = takeWhile (\<lambda>c. c = CHR ''/'') u @ strings_Trim path ''/''"
      by (simp add: t)
    then show ?thesis using False by (metis last_append)
  qed
  ultimately show ?thesis using lu by simp
qed

lemma Split_hd:
  assumes "s \<noteq> []" and "hd s \<noteq> CHR ''/''"
  shows "hd (strings_Split s ''/'') \<noteq> []"
proof (cases "bytes_Index s ''/''")
  case None
  with assms show ?thesis by (subst Split_slash) simp
next
  case (Some i)
  from Index_slash_Some [OF Some] assms have "i \<noteq> 0"
    by (metis hd_conv_nth)
  with Some assms show ?thesis by (subst Split_slash) simp
qed

lemma Split_last:
  "s \<noteq> [] \<Longrightarrow> last s \<noteq> CHR ''/'' \<Longrightarrow> last (strings_Split s ''/'') \<noteq> []"
proof (induction n \<equiv> "length s" arbitrary: s rule: less_induct)
  case less
  show ?case
  proof (cases "bytes_Index s ''/''")
    case None
    with less.prems show ?thesis by (subst Split_slash) simp
  next
    case (Some i)
    note i = Index_slash_Some [OF Some]
    have "i \<noteq> length s - 1"
    proof
      assume "i = length s - 1"
      with i less.prems show False by (simp add: last_conv_nth)
    qed
    with i have ne: "drop (i + 1) s \<noteq> []" by simp
    then have "last (drop (i + 1) s) = last s" by (simp add: last_drop)
    with less.prems have "last (drop (i + 1) s) \<noteq> CHR ''/''" by simp
    moreover have "length (drop (i + 1) s) < length s" using i by simp
    ultimately have "last (strings_Split (drop (i + 1) s) ''/'') \<noteq> []"
      using less.hyps ne by blast
    with Some show ?thesis
      by (subst Split_slash) (simp add: Split_nonempty)
  qed
qed

lemma two_nonempty:
  assumes "2 \<le> length xs" and "hd xs \<noteq> []" and "last xs \<noteq> []"
  shows "2 \<le> length (filter (\<lambda>s. s \<noteq> []) xs)"
proof -
  from assms(1) obtain a ys where xs: "xs = a # ys" and ys: "ys \<noteq> []"
    by (cases xs) (auto simp: Suc_le_length_iff)
  with assms have "a \<noteq> []" and "last ys \<noteq> []" by auto
  moreover have "last ys \<in> set ys" using ys by simp
  ultimately have "filter (\<lambda>s. s \<noteq> []) xs = a # filter (\<lambda>s. s \<noteq> []) ys"
    and "filter (\<lambda>s. s \<noteq> []) ys \<noteq> []"
    by (auto simp: xs filter_empty_conv)
  then show ?thesis by (cases "filter (\<lambda>s. s \<noteq> []) ys") auto
qed

lemma segments_nonempty_count:
  assumes "2 \<le> length (segments path)"
  shows "2 \<le> length (filter (\<lambda>s. s \<noteq> []) (segments path))"
proof -
  let ?t = "strings_Trim path ''/''"
  have "?t \<noteq> []"
  proof
    assume "?t = []"
    then have "segments path = [[]]" unfolding segments_def by (subst Split_slash) simp
    with assms show False by simp
  qed
  with Trim_ends [of path] have "hd ?t \<noteq> CHR ''/''" and "last ?t \<noteq> CHR ''/''" by auto
  with \<open>?t \<noteq> []\<close> have "hd (segments path) \<noteq> []" and "last (segments path) \<noteq> []"
    unfolding segments_def using Split_hd [of ?t] Split_last [of ?t] by blast+
  with assms show ?thesis by (rule two_nonempty)
qed

lemma Join_two: "2 \<le> length xs \<Longrightarrow> strings_Join (take 2 xs) ''/'' \<noteq> []"
proof -
  assume "2 \<le> length xs"
  then obtain a b zs where "xs = a # b # zs"
    by (cases xs; cases "tl xs") auto
  then show ?thesis by simp
qed

text \<open>
  Claim C1. A path whose trimmed form has fewer than 2 non-empty segments resolves to
  the base href \<open>/\<close>. A path with 2 or more segments (then at least 2 of them are not
  empty) resolves to \<open>/p/\<close> when the first two segments joined by a slash are a page \<open>p\<close>
  of the registry, and to \<open>/\<close> when they are not. Every path is of one of the two kinds.
\<close>

theorem baseHref_resolution:
  "(length (filter (\<lambda>s. s \<noteq> []) (segments path)) < 2 \<longrightarrow> baseHref reg path = ''/'') \<and>
   (2 \<le> length (segments path) \<longrightarrow>
      2 \<le> length (filter (\<lambda>s. s \<noteq> []) (segments path)) \<and>
      (reg (strings_Join (take 2 (segments path)) ''/'') \<noteq> None \<longrightarrow>
         baseHref reg path = ''/'' @ strings_Join (take 2 (segments path)) ''/'' @ ''/'') \<and>
      (reg (strings_Join (take 2 (segments path)) ''/'') = None \<longrightarrow>
         baseHref reg path = ''/'')) \<and>
   (length (filter (\<lambda>s. s \<noteq> []) (segments path)) < 2 \<or> 2 \<le> length (segments path))"
proof -
  let ?t = "strings_Trim path ''/''"
  have few: "baseHref reg path = ''/''" if "length (segments path) < 2"
    using that by (auto simp: baseHref_def Let_def segments_def)
  have known: "baseHref reg path = ''/'' @ strings_Join (take 2 (segments path)) ''/'' @ ''/''"
    if "2 \<le> length (segments path)" and "reg (strings_Join (take 2 (segments path)) ''/'') \<noteq> None"
  proof -
    have "?t \<noteq> []"
    proof
      assume "?t = []"
      then have "segments path = [[]]" unfolding segments_def by (subst Split_slash) simp
      with that show False by simp
    qed
    with that Join_two [OF that(1)] show ?thesis
      by (auto simp: baseHref_def Let_def segments_def)
  qed
  have unknown: "baseHref reg path = ''/''"
    if "reg (strings_Join (take 2 (segments path)) ''/'') = None"
    using that by (auto simp: baseHref_def Let_def segments_def)
  have count: "2 \<le> length (filter (\<lambda>s. s \<noteq> []) (segments path))"
    if "2 \<le> length (segments path)"
    using that by (rule segments_nonempty_count)
  have 1: "length (filter (\<lambda>s. s \<noteq> []) (segments path)) < 2 \<longrightarrow> baseHref reg path = ''/''"
    using few count by (cases "2 \<le> length (segments path)") auto
  have 3: "length (filter (\<lambda>s. s \<noteq> []) (segments path)) < 2 \<or> 2 \<le> length (segments path)"
    using length_filter_le [of "\<lambda>s. s \<noteq> []" "segments path"] by linarith
  from 1 3 known unknown count show ?thesis by blast
qed

text \<open>The theorem at a registered page, at an unknown page and at a path of one segment.\<close>

theorem baseHref_resolution_witness:
  "baseHref [''dashboard/settings'' \<mapsto> ()] ''/dashboard/settings/extra'' = ''/dashboard/settings/'' \<and>
   baseHref [''dashboard/settings'' \<mapsto> ()] ''/unknown/thing'' = ''/'' \<and>
   baseHref [''dashboard/settings'' \<mapsto> ()] ''/dashboard/'' = ''/''"
proof -
  let ?reg = "[''dashboard/settings'' \<mapsto> ()]"
  have s1: "segments ''/dashboard/settings/extra'' = [''dashboard'', ''settings'', ''extra'']"
    and s2: "segments ''/unknown/thing'' = [''unknown'', ''thing'']"
    and s3: "segments ''/dashboard/'' = [''dashboard'']"
    by code_simp+
  from baseHref_resolution [of "''/dashboard/settings/extra''" ?reg]
  have "baseHref ?reg ''/dashboard/settings/extra'' = ''/dashboard/settings/''"
    by (simp add: s1)
  moreover from baseHref_resolution [of "''/unknown/thing''" ?reg]
  have "baseHref ?reg ''/unknown/thing'' = ''/''"
    by (simp add: s2)
  moreover from baseHref_resolution [of "''/dashboard/''" ?reg]
  have "baseHref ?reg ''/dashboard/'' = ''/''"
    by (simp add: s3)
  ultimately show ?thesis by simp
qed

section \<open>The shell rewrite\<close>

lemma Replace1_replaces_first: "replaces_first (\<lambda>d. bytes_Replace1 d m r) m r"
  unfolding replaces_first_def
proof (intro allI conjI impI)
  fix d
  assume "\<nexists>x y. d = x @ m @ y"
  then show "bytes_Replace1 d m r = d" by (rule Replace1_absent)
next
  fix d x y
  assume "d = x @ m @ y \<and> (\<forall>x' y'. d = x' @ m @ y' \<longrightarrow> length x \<le> length x')"
  then show "bytes_Replace1 d m r = x @ r @ y" by (intro Replace1_first) auto
qed

text \<open>
  Claim C2. Each of the four substitutions replaces the first instance of its marker and
  nothing else, and leaves a document without its marker as it is; with no renderer
  configured the renderer substitution leaves every document as it is.
\<close>

theorem substitutions_replace_first:
  "replaces_first (replaceBaseHref href) baseHrefMarker (baseHrefTag href) \<and>
   replaces_first (replaceRouteUrlStrategy cfg) routeUrlStrategyMarker (RouteUrlStrategy cfg) \<and>
   (if WebRenderer cfg \<noteq> []
    then replaces_first (replaceWebRenderer cfg) webRendererMarker
           (webRendererScript (WebRenderer cfg))
    else \<forall>d. replaceWebRenderer cfg d = d) \<and>
   replaces_first (replaceColorEmoji cfg) colorEmojiMarker (colorEmojiScript (UseColorEmoji cfg))"
proof -
  have 1: "replaceBaseHref href = (\<lambda>d. bytes_Replace1 d baseHrefMarker (baseHrefTag href))"
    by (simp add: fun_eq_iff replaceBaseHref_def)
  have 2: "replaceRouteUrlStrategy cfg =
      (\<lambda>d. bytes_Replace1 d routeUrlStrategyMarker (RouteUrlStrategy cfg))"
    by (simp add: fun_eq_iff replaceRouteUrlStrategy_def)
  have 3: "WebRenderer cfg \<noteq> [] \<Longrightarrow> replaceWebRenderer cfg =
      (\<lambda>d. bytes_Replace1 d webRendererMarker (webRendererScript (WebRenderer cfg)))"
    by (simp add: fun_eq_iff replaceWebRenderer_def)
  have off: "WebRenderer cfg = [] \<Longrightarrow> replaceWebRenderer cfg d = d" for d
    by (simp add: replaceWebRenderer_def)
  have 4: "replaceColorEmoji cfg =
      (\<lambda>d. bytes_Replace1 d colorEmojiMarker (colorEmojiScript (UseColorEmoji cfg)))"
    by (simp add: fun_eq_iff replaceColorEmoji_def)
  show ?thesis
    using 3 off by (simp add: 1 2 4 Replace1_replaces_first)
qed

text \<open>The theorem at a document with two base-href markers and at one with none.\<close>

theorem substitutions_replace_first_witness:
  "replaceBaseHref ''/a/b/'' ''<base href=\"/\"><p><base href=\"/\">''
     = ''<base href=\"/a/b/\"><p><base href=\"/\">'' \<and>
   replaceBaseHref ''/a/b/'' ''<html></html>'' = ''<html></html>''"
proof -
  let ?d = "''<base href=\"/\"><p><base href=\"/\">''"
  let ?e = "''<html></html>''"
  have rf: "replaces_first (replaceBaseHref ''/a/b/'') baseHrefMarker (baseHrefTag ''/a/b/'')"
    using substitutions_replace_first [of "''/a/b/''"] by blast
  have d: "?d = [] @ baseHrefMarker @ ''<p><base href=\"/\">''"
    by (simp add: baseHrefMarker_def)
  have least: "\<forall>x' y'. ?d = x' @ baseHrefMarker @ y' \<longrightarrow> length ([]::string) \<le> length x'"
    by simp
  have absent: "\<nexists>x y. ?e = x @ baseHrefMarker @ y"
  proof
    assume "\<exists>x y. ?e = x @ baseHrefMarker @ y"
    then obtain x y where "?e = x @ baseHrefMarker @ y" by blast
    then have "length ?e = length (x @ baseHrefMarker @ y)" by (rule arg_cong)
    then show False by (simp add: baseHrefMarker_def)
  qed
  from rf d least have "replaceBaseHref ''/a/b/'' ?d = [] @ baseHrefTag ''/a/b/'' @ ''<p><base href=\"/\">''"
    unfolding replaces_first_def by blast
  moreover from rf absent have "replaceBaseHref ''/a/b/'' ?e = ?e"
    unfolding replaces_first_def by blast
  ultimately show ?thesis by (simp add: baseHrefTag_def)
qed

lemma distinct_substitutions: "distinct substitutions"
  by (simp add: substitutions_def)

lemma in_order_permuted:
  assumes c: "compatible cfg href" and d: "distinct order" and s: "set order = set substitutions"
  shows "in_order cfg href order d = rewrite cfg href d"
proof -
  from d s have "mset order = mset substitutions"
    using set_eq_iff_mset_eq_distinct [OF d distinct_substitutions] by simp
  moreover have "substitute cfg href x \<circ> substitute cfg href y =
      substitute cfg href y \<circ> substitute cfg href x" for x y
    using substitute_commute [OF c, of x y] by (cases "x = y") (auto simp: fun_eq_iff)
  ultimately have "fold (substitute cfg href) order = fold (substitute cfg href) substitutions"
    by (intro fold_multiset_equiv) auto
  then show ?thesis by (simp add: rewrite_in_order in_order_def)
qed

text \<open>
  Claim C3, as amended. When the configuration is compatible with the markers, the four
  substitutions applied in any order yield the bytes the handler's order yields. In any
  order a substitution meets its marker as often as the source document holds it: it is
  a no-op when the source has no instance, and when the source has one (and the
  substitution is not the renderer's with no renderer configured) it replaces the
  leftmost instance, once.
\<close>

theorem substitutions_order_independent:
  assumes c: "compatible cfg href"
  shows
   "(\<forall>order. distinct order \<and> set order = set substitutions \<longrightarrow>
       in_order cfg href order d = rewrite cfg href d) \<and>
    (\<forall>pre s. s \<notin> set pre \<longrightarrow>
       occurrences (marker s) (in_order cfg href pre d) = occurrences (marker s) d \<and>
       (occurrences (marker s) d = 0 \<longrightarrow>
          in_order cfg href (pre @ [s]) d = in_order cfg href pre d) \<and>
       (0 < occurrences (marker s) d \<and> \<not> (s = SubstWebRenderer \<and> WebRenderer cfg = []) \<longrightarrow>
          (\<exists>x y. in_order cfg href pre d = x @ marker s @ y \<and>
                 occurrences (marker s) (x @ marker s) = 1 \<and>
                 in_order cfg href (pre @ [s]) d = x @ replacement cfg href s @ y)))"
proof (intro conjI allI impI)
  fix order
  assume "distinct order \<and> set order = set substitutions"
  then show "in_order cfg href order d = rewrite cfg href d"
    using in_order_permuted [OF c] by blast
next
  fix pre :: "substitution list" and s :: substitution
  assume "s \<notin> set pre"
  then show "occurrences (marker s) (in_order cfg href pre d) = occurrences (marker s) d"
    by (rule in_order_count [OF c])
next
  fix pre :: "substitution list" and s :: substitution
  assume "s \<notin> set pre" and "occurrences (marker s) d = 0"
  then have "occurrences (marker s) (in_order cfg href pre d) = 0"
    using in_order_count [OF c, of s pre d] by simp
  then have "bytes_Index (in_order cfg href pre d) (marker s) = None"
    by (simp add: Index_None_iff)
  then show "in_order cfg href (pre @ [s]) d = in_order cfg href pre d"
    by (simp add: in_order_snoc substitute_Replace1 bytes_Replace1_def)
next
  fix pre :: "substitution list" and s :: substitution
  let ?e = "in_order cfg href pre d"
  assume pre: "s \<notin> set pre"
    and h: "0 < occurrences (marker s) d \<and> \<not> (s = SubstWebRenderer \<and> WebRenderer cfg = [])"
  then have "0 < occurrences (marker s) ?e"
    using in_order_count [OF c, of s pre d] by simp
  then obtain j where j: "bytes_Index ?e (marker s) = Some j"
    using Index_None_iff [of ?e "marker s"] by (cases "bytes_Index ?e (marker s)") auto
  note sp = Index_Some_count [OF marker_nonempty j]
  have "in_order cfg href (pre @ [s]) d =
      take j ?e @ replacement cfg href s @ drop (j + length (marker s)) ?e"
    using h j by (auto simp add: in_order_snoc substitute_Replace1 bytes_Replace1_def)
  with sp show "\<exists>x y. ?e = x @ marker s @ y \<and>
                 occurrences (marker s) (x @ marker s) = 1 \<and>
                 in_order cfg href (pre @ [s]) d = x @ replacement cfg href s @ y"
    by blast
qed

text \<open>The theorem at the path strategy, the canvaskit renderer and a page's base href, with
  the handler's order reversed.\<close>

theorem substitutions_order_independent_witness:
  "compatible \<lparr>RouteUrlStrategy = ''path'', WebRenderer = ''canvaskit'', UseColorEmoji = False\<rparr>
     ''/dashboard/settings/'' \<and>
   in_order \<lparr>RouteUrlStrategy = ''path'', WebRenderer = ''canvaskit'', UseColorEmoji = False\<rparr>
     ''/dashboard/settings/''
     [SubstColorEmoji, SubstWebRenderer, SubstRouteUrlStrategy, SubstBaseHref]
     ''<base href=\"/\"><!-- flutterWebRenderer --><!-- useColorEmoji -->%FLET_ROUTE_URL_STRATEGY%''
   = rewrite \<lparr>RouteUrlStrategy = ''path'', WebRenderer = ''canvaskit'', UseColorEmoji = False\<rparr>
     ''/dashboard/settings/''
     ''<base href=\"/\"><!-- flutterWebRenderer --><!-- useColorEmoji -->%FLET_ROUTE_URL_STRATEGY%''"
proof -
  let ?cfg = "\<lparr>RouteUrlStrategy = ''path'', WebRenderer = ''canvaskit'', UseColorEmoji = False\<rparr>"
  have c: "compatible ?cfg ''/dashboard/settings/''" by code_simp
  have o: "distinct [SubstColorEmoji, SubstWebRenderer, SubstRouteUrlStrategy, SubstBaseHref] \<and>
      set [SubstColorEmoji, SubstWebRenderer, SubstRouteUrlStrategy, SubstBaseHref] = set substitutions"
    by (auto simp: substitutions_def)
  from substitutions_order_independent [OF c] o c show ?thesis by blast
qed

text \<open>
  Claim C3 as stated, for every configuration, fails: when the route strategy is itself
  the text of the emoji marker, a document that holds only the strategy marker is
  rewritten to the emoji script in the handler's order and to the emoji marker when the
  emoji substitution runs first. And with no renderer configured the renderer marker of
  the source is not replaced at all.
\<close>

theorem substitutions_order_counterexample:
  "occurrences baseHrefMarker ''%FLET_ROUTE_URL_STRATEGY%'' \<le> 1 \<and>
   occurrences routeUrlStrategyMarker ''%FLET_ROUTE_URL_STRATEGY%'' \<le> 1 \<and>
   occurrences webRendererMarker ''%FLET_ROUTE_URL_STRATEGY%'' \<le> 1 \<and>
   occurrences colorEmojiMarker ''%FLET_ROUTE_URL_STRATEGY%'' \<le> 1 \<and>
   in_order \<lparr>RouteUrlStrategy = ''<!-- useColorEmoji -->'', WebRenderer = ''canvaskit'', UseColorEmoji = False\<rparr>
     ''/'' [SubstBaseHref, SubstRouteUrlStrategy, SubstWebRenderer, SubstColorEmoji]
     ''%FLET_ROUTE_URL_STRATEGY%''
     = ''<script>var useColorEmoji=false;</script>'' \<and>
   in_order \<lparr>RouteUrlStrategy = ''<!-- useColorEmoji -->'', WebRenderer = ''canvaskit'', UseColorEmoji = False\<rparr>
     ''/'' [SubstColorEmoji, SubstBaseHref, SubstRouteUrlStrategy, SubstWebRenderer]
     ''%FLET_ROUTE_URL_STRATEGY%''
     = ''<!-- useColorEmoji -->'' \<and>
   occurrences webRendererMarker ''<!-- flutterWebRenderer -->'' = 1 \<and>
   rewrite \<lparr>RouteUrlStrategy = ''path'', WebRenderer = [], UseColorEmoji = False\<rparr>
     ''/'' ''<!-- flutterWebRenderer -->'' = ''<!-- flutterWebRenderer -->''"
  by code_simp

lemma keeps_marker:
  assumes "isolated m' webRendererMarker"
  shows "occurrences webRendererMarker d \<le> occurrences webRendererMarker (bytes_Replace1 d m' r)"
  using Replace1_count_ge [OF marker_nonempty [of SubstWebRenderer], of m' d r] assms by simp

text \<open>
  Claim C4. With no renderer configured the renderer substitution changes nothing, the
  rewrite is the other three substitutions, and they leave every instance of the
  renderer marker in place: a document that holds the marker is rewritten to one that
  holds it.
\<close>

theorem rewrite_keeps_webRendererMarker:
  assumes off: "WebRenderer cfg = []"
  shows
    "replaceWebRenderer cfg d = d \<and>
     rewrite cfg href d =
       replaceColorEmoji cfg (replaceRouteUrlStrategy cfg (replaceBaseHref href d)) \<and>
     occurrences webRendererMarker d \<le> occurrences webRendererMarker (rewrite cfg href d) \<and>
     ((\<exists>x y. d = x @ webRendererMarker @ y) \<longrightarrow>
        (\<exists>x y. rewrite cfg href d = x @ webRendererMarker @ y))"
proof -
  have id: "replaceWebRenderer cfg e = e" for e
    using off by (simp add: replaceWebRenderer_def)
  have rw: "rewrite cfg href d =
      replaceColorEmoji cfg (replaceRouteUrlStrategy cfg (replaceBaseHref href d))"
    by (simp add: rewrite_def id)
  have b: "isolated baseHrefMarker webRendererMarker"
    and r: "isolated routeUrlStrategyMarker webRendererMarker"
    and e: "isolated colorEmojiMarker webRendererMarker"
    by (simp_all add: markers_apart apart_isolated)
  have "occurrences webRendererMarker d
      \<le> occurrences webRendererMarker (replaceBaseHref href d)"
    unfolding replaceBaseHref_def by (rule keeps_marker [OF b])
  also have "\<dots> \<le> occurrences webRendererMarker
      (replaceRouteUrlStrategy cfg (replaceBaseHref href d))"
    unfolding replaceRouteUrlStrategy_def by (rule keeps_marker [OF r])
  also have "\<dots> \<le> occurrences webRendererMarker
      (replaceColorEmoji cfg (replaceRouteUrlStrategy cfg (replaceBaseHref href d)))"
    unfolding replaceColorEmoji_def by (rule keeps_marker [OF e])
  finally have le: "occurrences webRendererMarker d
      \<le> occurrences webRendererMarker (rewrite cfg href d)"
    by (simp only: rw)
  then have "(\<exists>x y. d = x @ webRendererMarker @ y) \<longrightarrow>
        (\<exists>x y. rewrite cfg href d = x @ webRendererMarker @ y)"
    unfolding present_iff by simp
  with id rw le show ?thesis by blast
qed

text \<open>The theorem at a shell with the base-href, renderer and emoji markers.\<close>

theorem rewrite_keeps_webRendererMarker_witness:
  "rewrite \<lparr>RouteUrlStrategy = ''path'', WebRenderer = [], UseColorEmoji = True\<rparr> ''/a/b/''
     ''<base href=\"/\"><!-- flutterWebRenderer --><!-- useColorEmoji -->''
   = replaceColorEmoji \<lparr>RouteUrlStrategy = ''path'', WebRenderer = [], UseColorEmoji = True\<rparr>
      (replaceRouteUrlStrategy \<lparr>RouteUrlStrategy = ''path'', WebRenderer = [], UseColorEmoji = True\<rparr>
        (replaceBaseHref ''/a/b/''
          ''<base href=\"/\"><!-- flutterWebRenderer --><!-- useColorEmoji -->'')) \<and>
   (\<exists>x y. rewrite \<lparr>RouteUrlStrategy = ''path'', WebRenderer = [], UseColorEmoji = True\<rparr> ''/a/b/''
       ''<base href=\"/\"><!-- flutterWebRenderer --><!-- useColorEmoji -->''
     = x @ webRendererMarker @ y)"
proof -
  let ?cfg = "\<lparr>RouteUrlStrategy = ''path'', WebRenderer = [], UseColorEmoji = True\<rparr>"
  let ?d = "''<base href=\"/\"><!-- flutterWebRenderer --><!-- useColorEmoji -->''"
  have off: "WebRenderer ?cfg = []" by simp
  have "?d = ''<base href=\"/\">'' @ webRendererMarker @ ''<!-- useColorEmoji -->''"
    by (simp add: webRendererMarker_def)
  then have p: "\<exists>x y. ?d = x @ webRendererMarker @ y" by blast
  from rewrite_keeps_webRendererMarker [OF off, of ?d "''/a/b/''"] p show ?thesis by blast
qed

section \<open>The no-route handler: the choice between the API's 404 and the shell\<close>

lemma api_prefix: "apiRoutePrefix @ ''/'' = ''/api/''"
  by (simp add: apiRoutePrefix_def)

text \<open>
  What the handler does with every request. It tests the request target as the client
  sent it (\<^verbatim>\<open>RequestURI\<close>): when the target starts with \<open>/api/\<close> the response is status
  404 with the JSON body \<open>{"message":"API endpoint not found"}\<close>, whatever the page
  registry, the asset store and the configuration hold; when it does not, and the shell
  document opens, the response is the rewritten shell with content type \<open>text/html\<close> and
  status 200.
\<close>

lemma noRoute_dispatch:
  "(strings_HasPrefix (RequestURI c) ''/api/'' \<longrightarrow>
      noRoute env c = Inr (JSON 404 [(''message'', ''API endpoint not found'')]) \<and>
      json_body [(''message'', ''API endpoint not found'')] = ''{\"message\":\"API endpoint not found\"}'' \<and>
      (\<forall>env'. noRoute env' c = noRoute env c)) \<and>
   (\<not> strings_HasPrefix (RequestURI c) ''/api/'' \<longrightarrow>
      (\<forall>d. assetsFS_Open env ''index.html'' = Some d \<longrightarrow>
         noRoute env c =
           Inr (Data 200 ''text/html''
                 (rewrite (Config env) (baseHref (GetPageByName env) (URL_Path c)) d))))"
  by (simp add: noRoute_def api_prefix StatusOK_def StatusNotFound_def siteDefaultDocument_def
      json_body_def json_member_def)

text \<open>The lemma at an unknown API target and at a page of the registry.\<close>

lemma noRoute_dispatch_witness:
  "noRoute
     \<lparr>GetPageByName = [''dashboard/settings'' \<mapsto> ()],
      assetsFS_Open = [''index.html'' \<mapsto> ''<head><base href=\"/\"></head>''],
      Config = \<lparr>RouteUrlStrategy = ''path'', WebRenderer = [], UseColorEmoji = False\<rparr>\<rparr>
     \<lparr>RequestURI = ''/api/nope'', URL_Path = ''/api/nope'', UserAgent = ''curl'', ClientIP = ''10.0.0.1''\<rparr>
     = Inr (JSON 404 [(''message'', ''API endpoint not found'')]) \<and>
   noRoute
     \<lparr>GetPageByName = [''dashboard/settings'' \<mapsto> ()],
      assetsFS_Open = [''index.html'' \<mapsto> ''<head><base href=\"/\"></head>''],
      Config = \<lparr>RouteUrlStrategy = ''path'', WebRenderer = [], UseColorEmoji = False\<rparr>\<rparr>
     \<lparr>RequestURI = ''/dashboard/settings/extra?tab=1'', URL_Path = ''/dashboard/settings/extra'',
      UserAgent = ''curl'', ClientIP = ''10.0.0.1''\<rparr>
     = Inr (Data 200 ''text/html'' ''<head><base href=\"/dashboard/settings/\"></head>'')"
proof -
  let ?env = "\<lparr>GetPageByName = [''dashboard/settings'' \<mapsto> ()],
      assetsFS_Open = [''index.html'' \<mapsto> ''<head><base href=\"/\"></head>''],
      Config = \<lparr>RouteUrlStrategy = ''path'', WebRenderer = [], UseColorEmoji = False\<rparr>\<rparr>"
  let ?c1 = "\<lparr>RequestURI = ''/api/nope'', URL_Path = ''/api/nope'', UserAgent = ''curl'', ClientIP = ''10.0.0.1''\<rparr>"
  let ?c2 = "\<lparr>RequestURI = ''/dashboard/settings/extra?tab=1'', URL_Path = ''/dashboard/settings/extra'',
      UserAgent = ''curl'', ClientIP = ''10.0.0.1''\<rparr>"
  have p1: "strings_HasPrefix (RequestURI ?c1) ''/api/''"
    by (simp add: strings_HasPrefix_def)
  have p2: "\<not> strings_HasPrefix (RequestURI ?c2) ''/api/''"
    by (simp add: strings_HasPrefix_def)
  have a: "assetsFS_Open ?env ''index.html'' = Some ''<head><base href=\"/\"></head>''"
    by simp
  have b: "baseHref (GetPageByName ?env) (URL_Path ?c2) = ''/dashboard/settings/''"
    by code_simp
  have r: "rewrite (Config ?env) ''/dashboard/settings/'' ''<head><base href=\"/\"></head>''
             = ''<head><base href=\"/dashboard/settings/\"></head>''"
    by code_simp
  from p1 noRoute_dispatch [of ?c1 ?env]
  have "noRoute ?env ?c1 = Inr (JSON 404 [(''message'', ''API endpoint not found'')])" by blast
  moreover from p2 a noRoute_dispatch [of ?c2 ?env]
  have "noRoute ?env ?c2 = Inr (Data 200 ''text/html''
                 (rewrite (Config ?env) (baseHref (GetPageByName ?env) (URL_Path ?c2)) ''<head><base href=\"/\"></head>''))"
    by blast
  ultimately show ?thesis unfolding b r by simp
qed

text \<open>
  Claim C5, at the request target \<open>/%61pi/nope\<close>. Its decoded path is \<open>/api/nope\<close>, the
  string the router matches routes on and the handler resolves page names from, so the
  request is an unknown API route, which the comment above the handler answers with
  404. The handler tests the raw target instead: it serves this request the shell with
  status 200, while the target \<open>/api/nope\<close>, of the same path, gets the 404.
\<close>

theorem noRoute_encoded_api_path_serves_shell:
  "http_ReadRequest ''/%61pi/nope'' ''curl'' ''10.0.0.1'' =
     Some \<lparr>RequestURI = ''/%61pi/nope'', URL_Path = ''/api/nope'',
           UserAgent = ''curl'', ClientIP = ''10.0.0.1''\<rparr> \<and>
   strings_HasPrefix ''/api/nope'' ''/api/'' \<and>
   noRoute
     \<lparr>GetPageByName = (Map.empty :: string \<Rightarrow> unit option),
      assetsFS_Open = [''index.html'' \<mapsto> ''<head><base href=\"/\"></head>''],
      Config = \<lparr>RouteUrlStrategy = ''path'', WebRenderer = [], UseColorEmoji = False\<rparr>\<rparr>
     \<lparr>RequestURI = ''/%61pi/nope'', URL_Path = ''/api/nope'', UserAgent = ''curl'', ClientIP = ''10.0.0.1''\<rparr>
     = Inr (Data 200 ''text/html'' ''<head><base href=\"/\"></head>'') \<and>
   noRoute
     \<lparr>GetPageByName = (Map.empty :: string \<Rightarrow> unit option),
      assetsFS_Open = [''index.html'' \<mapsto> ''<head><base href=\"/\"></head>''],
      Config = \<lparr>RouteUrlStrategy = ''path'', WebRenderer = [], UseColorEmoji = False\<rparr>\<rparr>
     \<lparr>RequestURI = ''/api/nope'', URL_Path = ''/api/nope'', UserAgent = ''curl'', ClientIP = ''10.0.0.1''\<rparr>
     = Inr (JSON 404 [(''message'', ''API endpoint not found'')])"
  by code_simp

text \<open>
  Claim C6, at a request for \<open>/dashboard\<close> when the asset store has no \<open>index.html\<close>: the
  handler does not fall back to a shell; it panics on the \<open>nil\<close> file, and the caller gets
  status 500 from the recovery middleware.
\<close>

theorem noRoute_missing_shell_panics:
  "noRoute
     \<lparr>GetPageByName = (Map.empty :: string \<Rightarrow> unit option),
      assetsFS_Open = Map.empty,
      Config = \<lparr>RouteUrlStrategy = ''path'', WebRenderer = [], UseColorEmoji = False\<rparr>\<rparr>
     \<lparr>RequestURI = ''/dashboard'', URL_Path = ''/dashboard'', UserAgent = ''curl'', ClientIP = ''10.0.0.1''\<rparr>
     = Inl nilDereference \<and>
   serveNoRoute
     \<lparr>GetPageByName = (Map.empty :: string \<Rightarrow> unit option),
      assetsFS_Open = Map.empty,
      Config = \<lparr>RouteUrlStrategy = ''path'', WebRenderer = [], UseColorEmoji = False\<rparr>\<rparr>
     \<lparr>RequestURI = ''/dashboard'', URL_Path = ''/dashboard'', UserAgent = ''curl'', ClientIP = ''10.0.0.1''\<rparr>
     = AbortWithStatus 500"
  by (simp add: serveNoRoute_def gin_Recovery_def noRoute_def api_prefix strings_HasPrefix_def
      StatusInternalServerError_def)

text \<open>
  Claim C10. The handler chooses between the 404 and the shell by the prefix of the raw
  request target, and resolves the page name from the decoded path. The two strings
  differ for the target \<open>/%61pi/nope\<close>: its path \<open>/api/nope\<close> is under the API prefix, the
  target is not, and the request is served the shell.
\<close>

theorem noRoute_raw_uri_against_path:
  "noRoute env c =
     (if strings_HasPrefix (RequestURI c) ''/api/''
      then Inr (JSON 404 [(''message'', ''API endpoint not found'')])
      else (case assetsFS_Open env ''index.html'' of
              None \<Rightarrow> Inl nilDereference
            | Some d \<Rightarrow>
                Inr (Data 200 ''text/html''
                      (rewrite (Config env) (baseHref (GetPageByName env) (URL_Path c)) d)))) \<and>
   (\<exists>c'. http_ReadRequest ''/%61pi/nope'' agent ip = Some c' \<and>
      RequestURI c' \<noteq> URL_Path c' \<and>
      strings_HasPrefix (URL_Path c') ''/api/'' \<and>
      \<not> strings_HasPrefix (RequestURI c') ''/api/'' \<and>
      (\<forall>d. assetsFS_Open env ''index.html'' = Some d \<longrightarrow>
         noRoute env c' =
           Inr (Data 200 ''text/html''
                 (rewrite (Config env) (baseHref (GetPageByName env) ''/api/nope'') d))))"
proof -
  have rd: "http_ReadRequest ''/%61pi/nope'' agent ip =
     Some \<lparr>RequestURI = ''/%61pi/nope'', URL_Path = ''/api/nope'', UserAgent = agent, ClientIP = ip\<rparr>"
  proof -
    have "unescape ''/%61pi/nope'' = Some ''/api/nope''" by code_simp
    then show ?thesis by (simp add: http_ReadRequest_def strings_HasPrefix_def)
  qed
  have first: "noRoute env c =
     (if strings_HasPrefix (RequestURI c) ''/api/''
      then Inr (JSON 404 [(''message'', ''API endpoint not found'')])
      else (case assetsFS_Open env ''index.html'' of
              None \<Rightarrow> Inl nilDereference
            | Some d \<Rightarrow>
                Inr (Data 200 ''text/html''
                      (rewrite (Config env) (baseHref (GetPageByName env) (URL_Path c)) d))))"
    by (simp add: noRoute_def api_prefix StatusOK_def StatusNotFound_def siteDefaultDocument_def
        split: option.splits)
  show ?thesis
    by (rule conjI [OF first]) (simp add: rd noRoute_def api_prefix StatusOK_def siteDefaultDocument_def strings_HasPrefix_def)
qed

text \<open>The theorem at a server whose shell is a one-line document.\<close>

theorem noRoute_raw_uri_against_path_witness:
  "noRoute
     \<lparr>GetPageByName = (Map.empty :: string \<Rightarrow> unit option),
      assetsFS_Open = [''index.html'' \<mapsto> ''<head><base href=\"/\"></head>''],
      Config = \<lparr>RouteUrlStrategy = ''path'', WebRenderer = [], UseColorEmoji = False\<rparr>\<rparr>
     \<lparr>RequestURI = ''/%61pi/nope'', URL_Path = ''/api/nope'', UserAgent = ''curl'', ClientIP = ''10.0.0.1''\<rparr>
   = Inr (Data 200 ''text/html''
           (rewrite \<lparr>RouteUrlStrategy = ''path'', WebRenderer = [], UseColorEmoji = False\<rparr>
              (baseHref (Map.empty :: string \<Rightarrow> unit option) ''/api/nope'')
              ''<head><base href=\"/\"></head>''))"
proof -
  let ?env = "\<lparr>GetPageByName = (Map.empty :: string \<Rightarrow> unit option),
      assetsFS_Open = [''index.html'' \<mapsto> ''<head><base href=\"/\"></head>''],
      Config = \<lparr>RouteUrlStrategy = ''path'', WebRenderer = [], UseColorEmoji = False\<rparr>\<rparr>"
  have rd: "http_ReadRequest ''/%61pi/nope'' ''curl'' ''10.0.0.1'' =
     Some \<lparr>RequestURI = ''/%61pi/nope'', URL_Path = ''/api/nope'', UserAgent = ''curl'', ClientIP = ''10.0.0.1''\<rparr>"
    by code_simp
  have a: "assetsFS_Open ?env ''index.html'' = Some ''<head><base href=\"/\"></head>''" by simp
  from noRoute_raw_uri_against_path [of ?env undefined "''curl''" "''10.0.0.1''"]
  obtain c' where c': "http_ReadRequest ''/%61pi/nope'' ''curl'' ''10.0.0.1'' = Some c'"
    and sh: "\<forall>d. assetsFS_Open ?env ''index.html'' = Some d \<longrightarrow>
         noRoute ?env c' =
           Inr (Data 200 ''text/html''
                 (rewrite (Config ?env) (baseHref (GetPageByName ?env) ''/api/nope'') d))"
    by blast
  from c' rd have "c' = \<lparr>RequestURI = ''/%61pi/nope'', URL_Path = ''/api/nope'', UserAgent = ''curl'', ClientIP = ''10.0.0.1''\<rparr>"
    by simp
  with sh a show ?thesis by simp
qed

section \<open>The listen loop\<close>

lemma listen_loop_exit:
  "i \<le> k \<Longrightarrow> k \<le> 9 \<Longrightarrow> \<not> failing serve k \<Longrightarrow> (\<And>j. i \<le> j \<Longrightarrow> j < k \<Longrightarrow> failing serve j)
   \<Longrightarrow> listen_loop serve i = concat (replicate (k - i) retry_round) @ [ListenAndServe]"
proof (induction "k - i" arbitrary: i)
  case 0
  then have "i = k" by simp
  with 0 show ?case
    by (subst listen_loop.simps) (auto simp add: failing_def Let_def)
next
  case (Suc n)
  then have lt: "i < k" and fi: "failing serve i" by auto
  have ih: "listen_loop serve (i + 1) = concat (replicate (k - (i + 1)) retry_round) @ [ListenAndServe]"
    using Suc by (intro Suc.hyps(1)) auto
  have rep: "k - i = Suc (k - (i + 1))" using lt by simp
  show ?case
    using fi lt Suc.prems(2) ih
    by (subst listen_loop.simps) (simp add: failing_def Let_def rep retry_round_def)
qed

lemma listen_loop_fatal:
  "1 \<le> i \<Longrightarrow> i \<le> 9 \<Longrightarrow> (\<And>j. i \<le> j \<Longrightarrow> j \<le> 9 \<Longrightarrow> failing serve j)
   \<Longrightarrow> listen_loop serve i =
       concat (replicate (9 - i) retry_round) @
         [ListenAndServe, Fatal (''listen: '' @ Error (the (serve 9)) @ [CHR 0x0A])]"
proof (induction "9 - i" arbitrary: i)
  case 0
  then have "i = 9" by simp
  with 0 show ?case
    by (subst listen_loop.simps) (simp add: failing_def Let_def)
next
  case (Suc n)
  then have lt: "i < 9" and fi: "failing serve i" by auto
  have ih: "listen_loop serve (i + 1) = concat (replicate (9 - (i + 1)) retry_round) @
         [ListenAndServe, Fatal (''listen: '' @ Error (the (serve 9)) @ [CHR 0x0A])]"
    using Suc by (intro Suc.hyps(1)) auto
  have rep: "9 - i = Suc (9 - (i + 1))" using lt by simp
  show ?case
    using fi lt ih
    by (subst listen_loop.simps) (simp add: failing_def Let_def rep retry_round_def)
qed

lemma listen_loop_attempts:
  "length (filter (\<lambda>e. e = ListenAndServe) (listen_loop serve i)) \<le> 10 - i"
proof (induction serve i rule: listen_loop.induct)
  case (1 serve i)
  show ?case
  proof (cases "i < 10 \<and> failing serve i \<and> i \<noteq> 9")
    case True
    then have "length (filter (\<lambda>e. e = ListenAndServe) (listen_loop serve (i + 1))) \<le> 10 - (i + 1)"
      using 1 by (auto simp: failing_def)
    moreover have "listen_loop serve i = ListenAndServe # Sleep (100 * Millisecond) # listen_loop serve (i + 1)"
      using True by (subst listen_loop.simps) (simp add: failing_def Let_def)
    ultimately show ?thesis using True by simp arith
  next
    case False
    then show ?thesis
      by (subst listen_loop.simps) (auto simp add: failing_def Let_def)
  qed
qed

text \<open>
  Claim C7. The listen loop calls \<^verbatim>\<open>ListenAndServe\<close> at most 9 times. When the attempt
  \<open>k\<close> is the first that does not fail (it returns \<open>nil\<close> or \<^verbatim>\<open>ErrServerClosed\<close>), the loop
  ends there, after \<open>k - 1\<close> failed attempts each followed by a sleep of 100 ms. When all
  9 attempts fail, the first 8 are each followed by the sleep and the 9th by the fatal
  log call, which ends the process.
\<close>

theorem listen_goroutine_bounded_retry:
  "length (filter (\<lambda>e. e = ListenAndServe) (listen_goroutine serve)) \<le> 9 \<and>
   (\<forall>k. 1 \<le> k \<and> k \<le> 9 \<and> \<not> failing serve k \<and> (\<forall>i. 1 \<le> i \<and> i < k \<longrightarrow> failing serve i) \<longrightarrow>
      listen_goroutine serve = concat (replicate (k - 1) retry_round) @ [ListenAndServe]) \<and>
   ((\<forall>i. 1 \<le> i \<and> i \<le> 9 \<longrightarrow> failing serve i) \<longrightarrow>
      listen_goroutine serve =
        concat (replicate 8 retry_round) @
          [ListenAndServe, Fatal (''listen: '' @ Error (the (serve 9)) @ [CHR 0x0A])])"
proof (intro conjI allI impI)
  show "length (filter (\<lambda>e. e = ListenAndServe) (listen_goroutine serve)) \<le> 9"
    using listen_loop_attempts [of serve 1] by (simp add: listen_goroutine_def)
next
  fix k
  assume "1 \<le> k \<and> k \<le> 9 \<and> \<not> failing serve k \<and> (\<forall>i. 1 \<le> i \<and> i < k \<longrightarrow> failing serve i)"
  then show "listen_goroutine serve = concat (replicate (k - 1) retry_round) @ [ListenAndServe]"
    unfolding listen_goroutine_def by (intro listen_loop_exit) auto
next
  assume "\<forall>i. 1 \<le> i \<and> i \<le> 9 \<longrightarrow> failing serve i"
  then show "listen_goroutine serve =
        concat (replicate 8 retry_round) @
          [ListenAndServe, Fatal (''listen: '' @ Error (the (serve 9)) @ [CHR 0x0A])]"
    unfolding listen_goroutine_def using listen_loop_fatal [of 1 serve] by simp
qed

text \<open>The theorem at a port that frees up for the third attempt, and at one that never
  does.\<close>

theorem listen_goroutine_bounded_retry_witness:
  "listen_goroutine (\<lambda>i. if i < 3 then Some (OtherError ''bind: address already in use'') else Some ErrServerClosed)
     = [ListenAndServe, Sleep 100000000, ListenAndServe, Sleep 100000000, ListenAndServe] \<and>
   listen_goroutine (\<lambda>i. Some (OtherError ''bind: permission denied''))
     = concat (replicate 8 [ListenAndServe, Sleep 100000000]) @
        [ListenAndServe, Fatal (''listen: bind: permission denied'' @ [CHR 0x0A])]"
proof -
  let ?s = "\<lambda>i::nat. if i < 3 then Some (OtherError ''bind: address already in use'') else Some ErrServerClosed"
  let ?t = "\<lambda>i::nat. Some (OtherError ''bind: permission denied'')"
  have a: "1 \<le> (3::nat) \<and> (3::nat) \<le> 9 \<and> \<not> failing ?s 3 \<and> (\<forall>i. 1 \<le> i \<and> i < 3 \<longrightarrow> failing ?s i)"
    by (simp add: failing_def)
  have b: "\<forall>i. 1 \<le> i \<and> i \<le> 9 \<longrightarrow> failing ?t i"
    by (simp add: failing_def)
  from a listen_goroutine_bounded_retry [of ?s] have
    "listen_goroutine ?s = concat (replicate (3 - 1) retry_round) @ [ListenAndServe]" by blast
  moreover from b listen_goroutine_bounded_retry [of ?t] have
    "listen_goroutine ?t = concat (replicate 8 retry_round) @
          [ListenAndServe, Fatal (''listen: '' @ Error (the (?t 9)) @ [CHR 0x0A])]" by blast
  ultimately show ?thesis
    by (simp add: retry_round_def Millisecond_def numeral_2_eq_2)
qed

section \<open>Shutdown\<close>

text \<open>
  Claim C8. Nothing happens before the context is cancelled. On cancellation the server
  is asked to shut down under a deadline of 5 seconds; an error of the shutdown (the
  expired deadline, when the open requests need longer) ends in the fatal log call
  \<open>Server forced to shutdown:\<close>, and a clean shutdown in the log line \<open>Server exited\<close>.
\<close>

theorem Start_shutdown_bounded_drain:
  "Start_wait False shutdown = [] \<and>
   Start_wait True shutdown = Start_shutdown shutdown \<and>
   5 * Second = 5000000000 \<and>
   (\<forall>err. shutdown (5 * Second) = Some err \<longrightarrow>
      Start_shutdown shutdown =
        [Println ''Shutting down server...'', Shutdown (5 * Second),
         Fatal (''Server forced to shutdown:'' @ Error err)]) \<and>
   (shutdown (5 * Second) = None \<longrightarrow>
      Start_shutdown shutdown =
        [Println ''Shutting down server...'', Shutdown (5 * Second), Println ''Server exited'']) \<and>
   (5 * Second < drain \<longrightarrow>
      Start_shutdown (srv_Shutdown drain) =
        [Println ''Shutting down server...'', Shutdown (5 * Second),
         Fatal ''Server forced to shutdown:context deadline exceeded'']) \<and>
   (drain \<le> 5 * Second \<longrightarrow>
      Start_shutdown (srv_Shutdown drain) =
        [Println ''Shutting down server...'', Shutdown (5 * Second), Println ''Server exited''])"
  by (simp add: Start_wait_def Start_shutdown_def srv_Shutdown_def Second_def Millisecond_def Let_def)

text \<open>The theorem at a drain of 7 seconds and at a drain of 1 second.\<close>

theorem Start_shutdown_bounded_drain_witness:
  "Start_shutdown (srv_Shutdown 7000000000) =
     [Println ''Shutting down server...'', Shutdown 5000000000,
      Fatal ''Server forced to shutdown:context deadline exceeded''] \<and>
   Start_shutdown (srv_Shutdown 1000000000) =
     [Println ''Shutting down server...'', Shutdown 5000000000, Println ''Server exited'']"
proof -
  have a: "5 * Second < 7000000000" and b: "1000000000 \<le> 5 * Second"
    by (simp_all add: Second_def Millisecond_def)
  have s: "5 * Second = 5000000000" by (simp add: Second_def Millisecond_def)
  from a Start_shutdown_bounded_drain [of "srv_Shutdown 7000000000" 7000000000]
  have "Start_shutdown (srv_Shutdown 7000000000) =
        [Println ''Shutting down server...'', Shutdown (5 * Second),
         Fatal ''Server forced to shutdown:context deadline exceeded'']" by blast
  moreover from b Start_shutdown_bounded_drain [of "srv_Shutdown 1000000000" 1000000000]
  have "Start_shutdown (srv_Shutdown 1000000000) =
        [Println ''Shutting down server...'', Shutdown (5 * Second), Println ''Server exited'']" by blast
  ultimately show ?thesis by (simp add: s)
qed

section \<open>The WebSocket handler\<close>

lemma Upgrade_permissive:
  "Upgrade lib (u\<lparr>CheckOrigin := Some (\<lambda>r. True)\<rparr>) c =
     (case checkHeaders lib c of Some err \<Rightarrow> Inl err | None \<Rightarrow> hijack lib c)"
  by (simp add: Upgrade_def split: option.splits)

text \<open>
  Claim C9. The handler installs an origin check that accepts every request, so the
  upgrade depends only on the handshake headers and on taking over the connection. When
  the upgrade succeeds the handler's only effect is one call of \<^verbatim>\<open>page.NewClient\<close>, with
  the wrapped connection, the client's IP and its user agent; when it fails the only
  effect is the error log line, and no client is created.
\<close>

theorem websocketHandler_upgrade:
  "CheckOrigin (fst (websocketHandler lib u c)) \<noteq> None \<and>
   (\<forall>r. the (CheckOrigin (fst (websocketHandler lib u c))) r) \<and>
   Upgrade lib (fst (websocketHandler lib u c)) c =
     (case checkHeaders lib c of Some err \<Rightarrow> Inl err | None \<Rightarrow> hijack lib c) \<and>
   (\<forall>conn. Upgrade lib (fst (websocketHandler lib u c)) c = Inr conn \<longrightarrow>
      snd (websocketHandler lib u c) = [NewClient (NewWebSocket conn) (ClientIP c) (UserAgent c)]) \<and>
   (\<forall>err. Upgrade lib (fst (websocketHandler lib u c)) c = Inl err \<longrightarrow>
      snd (websocketHandler lib u c) = [Errorln ''Error upgrading WebSocket connection:'' err] \<and>
      (\<forall>w ip agent. NewClient w ip agent \<notin> set (snd (websocketHandler lib u c))))"
proof -
  let ?u = "u\<lparr>CheckOrigin := Some (\<lambda>r. True)\<rparr>"
  have f: "fst (websocketHandler lib u c) = ?u"
    by (simp add: websocketHandler_def Let_def split: sum.splits)
  show ?thesis
    unfolding f
    by (auto simp add: Upgrade_permissive websocketHandler_def Let_def split: sum.splits option.splits)
qed

text \<open>The theorem at an upgrade that succeeds and at one whose headers are refused.\<close>

theorem websocketHandler_upgrade_witness:
  "snd (websocketHandler
          \<lparr>checkHeaders = (\<lambda>r. None), checkSameOrigin = (\<lambda>r. False), hijack = (\<lambda>r. Inr (7::nat))\<rparr>
          upgrader0
          \<lparr>RequestURI = ''/ws'', URL_Path = ''/ws'', UserAgent = ''Mozilla/5.0'', ClientIP = ''10.0.0.1''\<rparr>)
     = [NewClient (NewWebSocket 7) ''10.0.0.1'' ''Mozilla/5.0''] \<and>
   snd (websocketHandler
          \<lparr>checkHeaders = (\<lambda>r. Some ''websocket: the client is not using the websocket protocol''),
           checkSameOrigin = (\<lambda>r. True), hijack = (\<lambda>r. Inr (7::nat))\<rparr>
          upgrader0
          \<lparr>RequestURI = ''/ws'', URL_Path = ''/ws'', UserAgent = ''curl'', ClientIP = ''10.0.0.1''\<rparr>)
     = [Errorln ''Error upgrading WebSocket connection:''
          ''websocket: the client is not using the websocket protocol'']"
proof -
  let ?ok = "\<lparr>checkHeaders = (\<lambda>r. None), checkSameOrigin = (\<lambda>r. False), hijack = (\<lambda>r. Inr (7::nat))\<rparr>"
  let ?bad = "\<lparr>checkHeaders = (\<lambda>r. Some ''websocket: the client is not using the websocket protocol''),
           checkSameOrigin = (\<lambda>r. True), hijack = (\<lambda>r. Inr (7::nat))\<rparr>"
  let ?c = "\<lparr>RequestURI = ''/ws'', URL_Path = ''/ws'', UserAgent = ''Mozilla/5.0'', ClientIP = ''10.0.0.1''\<rparr>"
  let ?d = "\<lparr>RequestURI = ''/ws'', URL_Path = ''/ws'', UserAgent = ''curl'', ClientIP = ''10.0.0.1''\<rparr>"
  note ok = websocketHandler_upgrade [of ?ok upgrader0 ?c]
  note bad = websocketHandler_upgrade [of ?bad upgrader0 ?d]
  from ok have "Upgrade ?ok (fst (websocketHandler ?ok upgrader0 ?c)) ?c = Inr 7" by simp
  with ok have 1: "snd (websocketHandler ?ok upgrader0 ?c)
      = [NewClient (NewWebSocket 7) (ClientIP ?c) (UserAgent ?c)]" by blast
  from bad have "Upgrade ?bad (fst (websocketHandler ?bad upgrader0 ?d)) ?d
      = Inl ''websocket: the client is not using the websocket protocol''" by simp
  with bad have 2: "snd (websocketHandler ?bad upgrader0 ?d)
      = [Errorln ''Error upgrading WebSocket connection:''
          ''websocket: the client is not using the websocket protocol'']" by blast
  from 1 2 show ?thesis by simp
qed

end
